theory Spec2Isabelle
  imports Main
begin

section \<open>Flat routes: embedding of \<open>packages/remix-dev/config/flat-routes.ts\<close>\<close>

text \<open>
  JavaScript strings are modelled as \<open>string\<close> (lists of characters), \<open>undefined\<close> as
  \<open>None\<close>, a thrown \<open>Error\<close> as the left injection of a sum.
\<close>

subsection \<open>String operations of the host language\<close>

definition str_includes :: "string \<Rightarrow> char \<Rightarrow> bool" where
  \<comment> \<open>\<open>s.includes(c)\<close> for a one-character needle.\<close>
  "str_includes s c = (c \<in> set s)"

definition startsWith :: "string \<Rightarrow> string \<Rightarrow> bool" where
  "startsWith s p = (take (length p) s = p)"

definition endsWith :: "string \<Rightarrow> string \<Rightarrow> bool" where
  "endsWith s suf = (length suf \<le> length s \<and> drop (length s - length suf) s = suf)"

definition lastIndexOf :: "string \<Rightarrow> char \<Rightarrow> int" where
  \<comment> \<open>\<open>s.lastIndexOf(c)\<close>: the position of the last \<open>c\<close> in \<open>s\<close>, or \<open>-1\<close> if there is none\<close>
  "lastIndexOf s c =
     (if c \<in> set s then int (length s) - 1 - int (length (takeWhile (\<lambda>x. x \<noteq> c) (rev s)))
      else - 1)"

definition substring0 :: "string \<Rightarrow> int \<Rightarrow> string" where
  \<comment> \<open>\<open>s.substring(0, k)\<close>: a negative \<open>k\<close> is clamped to 0\<close>
  "substring0 s k = take (nat k) s"

fun join :: "string list \<Rightarrow> string \<Rightarrow> string" where
  \<comment> \<open>\<open>xs.join(sep)\<close>\<close>
  "join [] sep = []"
| "join [x] sep = x"
| "join (x # y # ys) sep = x @ sep @ join (y # ys) sep"

subsection \<open>Regular expressions (\<open>RegExp.prototype.test\<close>)\<close>

datatype regex =
    Eps
  | Lit char
  | NotIn "char list"
  | Bol
  | Eol
  | Seq regex regex
  | Alt regex regex
  | Opt regex
  | Plus regex

fun plus_ends :: "(nat \<Rightarrow> nat list) \<Rightarrow> nat \<Rightarrow> nat list \<Rightarrow> nat list" where
  "plus_ends f 0 ps = []"
| "plus_ends f (Suc n) ps = (let qs = concat (map f ps) in qs @ plus_ends f n qs)"

fun rx_ends :: "regex \<Rightarrow> string \<Rightarrow> nat \<Rightarrow> nat list" where
  \<comment> \<open>the positions at which a match of the expression that starts at \<open>i\<close> can end\<close>
  "rx_ends Eps s i = [i]"
| "rx_ends (Lit c) s i = (if i < length s \<and> s ! i = c then [Suc i] else [])"
| "rx_ends (NotIn cs) s i = (if i < length s \<and> s ! i \<notin> set cs then [Suc i] else [])"
| "rx_ends Bol s i = (if i = 0 then [i] else [])"
| "rx_ends Eol s i = (if i = length s then [i] else [])"
| "rx_ends (Seq a b) s i = concat (map (rx_ends b s) (rx_ends a s i))"
| "rx_ends (Alt a b) s i = rx_ends a s i @ rx_ends b s i"
| "rx_ends (Opt a) s i = rx_ends a s i @ [i]"
| "rx_ends (Plus a) s i = plus_ends (rx_ends a s) (Suc (length s)) [i]"

definition rx_test :: "regex \<Rightarrow> string \<Rightarrow> bool" where
  \<comment> \<open>\<open>re.test(s)\<close> without flags: a match may start anywhere\<close>
  "rx_test r s = list_ex (\<lambda>i. rx_ends r s i \<noteq> []) [0..<Suc (length s)]"

fun rx_str :: "string \<Rightarrow> regex" where
  "rx_str [] = Eps"
| "rx_str (c # cs) = Seq (Lit c) (rx_str cs)"

definition indexRouteRegex :: regex where
  \<comment> \<open>\<open>/((^|[.]|[+]\/)(index|_index))(\/[^/]+)?$|(\/_?index\/)/\<close>\<close>
  "indexRouteRegex =
     Alt (Seq (Seq (Seq (Alt Bol (Alt (Lit CHR ''.'') (Seq (Lit CHR ''+'') (Lit CHR ''/''))))
                        (Alt (rx_str ''index'') (rx_str ''_index'')))
                   (Opt (Seq (Lit CHR ''/'') (Plus (NotIn ''/'')))))
              Eol)
         (Seq (Lit CHR ''/'') (Seq (Opt (Lit CHR ''_'')) (Seq (rx_str ''index'') (Lit CHR ''/''))))"

subsection \<open>Index-route detection\<close>

definition isIndexRoute :: "string \<Rightarrow> bool" where
  "isIndexRoute routeId =
     (let isFlatFile = \<not> str_includes routeId CHR ''/''
      in if isFlatFile then endsWith routeId ''_index''
         else rx_test indexRouteRegex routeId)"

subsection \<open>Path builder\<close>

fun createRoutePath_loop :: "string list \<Rightarrow> string \<Rightarrow> string" where
  \<comment> \<open>the \<open>for (let segment of routeSegments)\<close> loop, \<open>result\<close> being the accumulator\<close>
  "createRoutePath_loop [] result = result"
| "createRoutePath_loop (segment # rest) result =
     (if startsWith segment ''_'' then createRoutePath_loop rest result
      else let segment' = (if endsWith segment ''_'' then butlast segment else segment)
           in createRoutePath_loop rest (result @ ''/'' @ segment'))"

definition createRoutePath :: "string list \<Rightarrow> bool \<Rightarrow> string option" where
  "createRoutePath routeSegments isIndex =
     (let routeSegments' = (if isIndex then butlast routeSegments else routeSegments);
          result = createRoutePath_loop routeSegments' ''''
      in if result = '''' then None else Some result)"

text \<open>The path builder as the specification words it: filter, strip, prefix, concatenate.\<close>

definition spec_routePath :: "string list \<Rightarrow> bool \<Rightarrow> string option" where
  "spec_routePath segs isIndex =
     (let kept = filter (\<lambda>s. \<not> startsWith s ''_'') (if isIndex then butlast segs else segs);
          parts = map (\<lambda>s. ''/'' @ (if endsWith s ''_'' then butlast s else s)) kept
      in if kept = [] then None else Some (concat parts))"

subsection \<open>Segment tokenizer\<close>

text \<open>
  Modelled from the spec: \<open>routesConvention.ts\<close>, which exports the delimiter characters
  and \<open>isSegmentSeparator\<close>, is not among the sources. The delimiters are the ones the
  specification of the tokenizer names (\<open>[\<close>, \<open>]\<close>, \<open>(\<close>, \<open>)\<close>, \<open>$\<close>); the separators are
  the characters that the comment on the \<open>State\<close> type in \<open>flat-routes.ts\<close> lists:
  \<open>/\<close>, \<open>.\<close> and the backslash.
\<close>

definition escapeStart :: char where "escapeStart = CHR ''[''"
definition escapeEnd :: char where "escapeEnd = CHR '']''"
definition optionalStart :: char where "optionalStart = CHR ''(''"
definition optionalEnd :: char where "optionalEnd = CHR '')''"
definition paramPrefixChar :: char where "paramPrefixChar = CHR ''$''"

definition isSegmentSeparator :: "char \<Rightarrow> bool" where
  "isSegmentSeparator c = (c = CHR ''/'' \<or> c = CHR ''.'' \<or> c = CHR 0x5C)"

datatype State = NORMAL | ESCAPE | OPTIONAL | OPTIONAL_ESCAPE

datatype error =
    NotSupportedInRR string string char
    \<comment> \<open>route segment, route id, character: "Route segment ... for ... cannot contain ..."\<close>
  | RouteConflict "string option" string string
    \<comment> \<open>full path, route id, conflicting route id: "Path ... defined by route ... conflicts
        with route ..."\<close>
  | InvalidIndexChild string
    \<comment> \<open>"Child routes are not allowed in index routes. Please remove child routes of ..."\<close>

definition pushRouteSegment ::
  "string \<Rightarrow> string \<Rightarrow> string list \<Rightarrow> string \<Rightarrow> error + string list" where
  \<comment> \<open>the closure over \<open>routeId\<close>, \<open>rawRouteSegment\<close> and \<open>routeSegments\<close>; the result is the
      array after the call\<close>
  "pushRouteSegment routeId rawRouteSegment routeSegments routeSegment =
     (if routeSegment = [] then Inr routeSegments
      else if str_includes rawRouteSegment CHR ''*''
        then Inl (NotSupportedInRR rawRouteSegment routeId CHR ''*'')
      else if str_includes rawRouteSegment CHR '':''
        then Inl (NotSupportedInRR rawRouteSegment routeId CHR '':'')
      else if str_includes rawRouteSegment CHR ''/''
        then Inl (NotSupportedInRR routeSegment routeId CHR ''/'')
      else Inr (routeSegments @ [routeSegment]))"

type_synonym tokenizer = "State \<times> string \<times> string \<times> string list"
  \<comment> \<open>\<open>state\<close>, \<open>routeSegment\<close>, \<open>rawRouteSegment\<close>, \<open>routeSegments\<close>\<close>

fun getRouteSegments_loop ::
  "string \<Rightarrow> string \<Rightarrow> State \<Rightarrow> string \<Rightarrow> string \<Rightarrow> string list \<Rightarrow> error + tokenizer" where
  \<comment> \<open>the \<open>while (index < routeId.length)\<close> loop; the second argument is what is left of
      \<open>routeId\<close> from \<open>index\<close> on, so \<open>index === routeId.length\<close> after the increment reads
      \<open>rest = []\<close>\<close>
  "getRouteSegments_loop routeId [] state routeSegment rawRouteSegment routeSegments =
     Inr (state, routeSegment, rawRouteSegment, routeSegments)"
| "getRouteSegments_loop routeId (char # rest) NORMAL routeSegment rawRouteSegment routeSegments =
     (if isSegmentSeparator char then
        (case pushRouteSegment routeId rawRouteSegment routeSegments routeSegment of
           Inl e \<Rightarrow> Inl e
         | Inr routeSegments' \<Rightarrow> getRouteSegments_loop routeId rest NORMAL [] [] routeSegments')
      else if char = escapeStart then
        getRouteSegments_loop routeId rest ESCAPE routeSegment rawRouteSegment routeSegments
      else if char = optionalStart then
        getRouteSegments_loop routeId rest OPTIONAL routeSegment rawRouteSegment routeSegments
      else if routeSegment = [] \<and> char = paramPrefixChar then
        (if rest = [] then
           getRouteSegments_loop routeId rest NORMAL (routeSegment @ ''*'')
             (rawRouteSegment @ [char]) routeSegments
         else
           getRouteSegments_loop routeId rest NORMAL (routeSegment @ '':'')
             (rawRouteSegment @ [char]) routeSegments)
      else
        getRouteSegments_loop routeId rest NORMAL (routeSegment @ [char])
          (rawRouteSegment @ [char]) routeSegments)"
| "getRouteSegments_loop routeId (char # rest) ESCAPE routeSegment rawRouteSegment routeSegments =
     (if char = escapeEnd then
        getRouteSegments_loop routeId rest NORMAL routeSegment rawRouteSegment routeSegments
      else
        getRouteSegments_loop routeId rest ESCAPE (routeSegment @ [char])
          (rawRouteSegment @ [char]) routeSegments)"
| "getRouteSegments_loop routeId (char # rest) OPTIONAL routeSegment rawRouteSegment routeSegments =
     (if char = optionalEnd then
        getRouteSegments_loop routeId rest NORMAL (routeSegment @ ''?'')
          (rawRouteSegment @ ''?'') routeSegments
      else if char = escapeStart then
        getRouteSegments_loop routeId rest OPTIONAL_ESCAPE routeSegment rawRouteSegment
          routeSegments
      else if routeSegment = [] \<and> char = paramPrefixChar then
        (if rest = [] then
           getRouteSegments_loop routeId rest OPTIONAL (routeSegment @ ''*'')
             (rawRouteSegment @ [char]) routeSegments
         else
           getRouteSegments_loop routeId rest OPTIONAL (routeSegment @ '':'')
             (rawRouteSegment @ [char]) routeSegments)
      else
        getRouteSegments_loop routeId rest OPTIONAL (routeSegment @ [char])
          (rawRouteSegment @ [char]) routeSegments)"
| "getRouteSegments_loop routeId (char # rest) OPTIONAL_ESCAPE routeSegment rawRouteSegment
       routeSegments =
     (if char = escapeEnd then
        getRouteSegments_loop routeId rest OPTIONAL routeSegment rawRouteSegment routeSegments
      else
        getRouteSegments_loop routeId rest OPTIONAL_ESCAPE (routeSegment @ [char])
          (rawRouteSegment @ [char]) routeSegments)"

definition stripFolderMarker :: "string \<Rightarrow> string" where
  \<comment> \<open>the reassignment of \<open>routeId\<close> before the loop: a trailing \<open>/index\<close> or \<open>/route\<close> of an
      id with a folder is cut off\<close>
  "stripFolderMarker routeId =
     (let hasFolder = (str_includes routeId CHR ''/'' \<or> str_includes routeId (CHR 0x5C))
      in if hasFolder \<and> (endsWith routeId ''/index'' \<or> endsWith routeId ''/route'') then
           (let last = lastIndexOf routeId CHR ''/''
            in if last \<ge> 0 then substring0 routeId last else routeId)
         else routeId)"

definition getRouteSegments :: "string \<Rightarrow> error + string list" where
  "getRouteSegments routeId0 =
     (let routeId = stripFolderMarker routeId0
      in case getRouteSegments_loop routeId routeId NORMAL [] [] [] of
           Inl e \<Rightarrow> Inl e
         | Inr (state, routeSegment, rawRouteSegment, routeSegments) \<Rightarrow>
             pushRouteSegment routeId rawRouteSegment routeSegments routeSegment)"

text \<open>
  The tokenizer's state machine without the check: the pairs of \<open>routeSegment\<close> and
  \<open>rawRouteSegment\<close> with which \<open>pushRouteSegment\<close> is called, in order, up to and including
  the call after the loop.
\<close>

fun flushes :: "string \<Rightarrow> State \<Rightarrow> string \<Rightarrow> string \<Rightarrow> (string \<times> string) list" where
  "flushes [] st seg raw = [(seg, raw)]"
| "flushes (c # rest) NORMAL seg raw =
     (if isSegmentSeparator c then (seg, raw) # flushes rest NORMAL [] []
      else if c = escapeStart then flushes rest ESCAPE seg raw
      else if c = optionalStart then flushes rest OPTIONAL seg raw
      else if seg = [] \<and> c = paramPrefixChar then
        flushes rest NORMAL (if rest = [] then ''*'' else '':'') (raw @ [c])
      else flushes rest NORMAL (seg @ [c]) (raw @ [c]))"
| "flushes (c # rest) ESCAPE seg raw =
     (if c = escapeEnd then flushes rest NORMAL seg raw
      else flushes rest ESCAPE (seg @ [c]) (raw @ [c]))"
| "flushes (c # rest) OPTIONAL seg raw =
     (if c = optionalEnd then flushes rest NORMAL (seg @ ''?'') (raw @ ''?'')
      else if c = escapeStart then flushes rest OPTIONAL_ESCAPE seg raw
      else if seg = [] \<and> c = paramPrefixChar then
        flushes rest OPTIONAL (if rest = [] then ''*'' else '':'') (raw @ [c])
      else flushes rest OPTIONAL (seg @ [c]) (raw @ [c]))"
| "flushes (c # rest) OPTIONAL_ESCAPE seg raw =
     (if c = escapeEnd then flushes rest OPTIONAL seg raw
      else flushes rest OPTIONAL_ESCAPE (seg @ [c]) (raw @ [c]))"

definition rejected :: "string \<times> string \<Rightarrow> bool" where
  \<comment> \<open>a non-empty segment whose raw text has a reserved character\<close>
  "rejected p =
     (fst p \<noteq> [] \<and>
      (CHR ''*'' \<in> set (snd p) \<or> CHR '':'' \<in> set (snd p) \<or> CHR ''/'' \<in> set (snd p)))"

fun pushAll :: "string \<Rightarrow> string list \<Rightarrow> (string \<times> string) list \<Rightarrow> error + string list" where
  "pushAll rid segs [] = Inr segs"
| "pushAll rid segs ((sg, rw) # fs) =
     (case pushRouteSegment rid rw segs sg of
        Inl e \<Rightarrow> Inl e
      | Inr segs' \<Rightarrow> pushAll rid segs' fs)"

definition tokenize ::
  "string \<Rightarrow> string \<Rightarrow> State \<Rightarrow> string \<Rightarrow> string \<Rightarrow> string list \<Rightarrow> error + string list" where
  \<comment> \<open>the loop from any configuration, followed by the final \<open>pushRouteSegment\<close>\<close>
  "tokenize rid cs st seg raw segs =
     (case getRouteSegments_loop rid cs st seg raw segs of
        Inl e \<Rightarrow> Inl e
      | Inr (st', seg', raw', segs') \<Rightarrow> pushRouteSegment rid raw' segs' seg')"

subsection \<open>Route information and parent resolution\<close>

record RouteInfo =
  ri_id :: string
  ri_path :: "string option"
  ri_file :: string
  ri_name :: string
  ri_segments :: "string list"
  ri_index :: bool
  ri_parentId :: "string option"

function findParentRouteId_loop :: "(string \<rightharpoonup> RouteInfo) \<Rightarrow> string \<Rightarrow> string option" where
  \<comment> \<open>\<open>while (parentName) { ... }\<close> followed by \<open>return undefined\<close>\<close>
  "findParentRouteId_loop nameMap parentName =
     (if parentName = [] then None
      else case nameMap parentName of
             Some parentRoute \<Rightarrow> Some (ri_id parentRoute)
           | None \<Rightarrow>
               findParentRouteId_loop nameMap
                 (substring0 parentName (lastIndexOf parentName CHR ''/'')))"
  by pat_completeness auto
termination
proof (relation "measure (\<lambda>(nameMap, parentName). length parentName)")
  show "wf (measure (\<lambda>(nameMap :: string \<rightharpoonup> RouteInfo, parentName :: string). length parentName))"
    by simp
next
  fix nameMap :: "string \<rightharpoonup> RouteInfo" and parentName :: string
  assume "parentName \<noteq> []"
  then have pos: "0 < length parentName"
    by simp
  have bound: "nat (int n - 1 - int k) < n" if "0 < n" for n k :: nat
    using that by arith
  have "nat (lastIndexOf parentName CHR ''/'') < length parentName"
    unfolding lastIndexOf_def using pos bound [OF pos] by (simp del: length_greater_0_conv)
  then show "((nameMap, substring0 parentName (lastIndexOf parentName CHR ''/'')),
              (nameMap, parentName))
             \<in> measure (\<lambda>(nameMap, parentName). length parentName)"
    by (simp add: substring0_def)
qed

declare findParentRouteId_loop.simps [simp del]

definition findParentRouteId :: "RouteInfo \<Rightarrow> (string \<rightharpoonup> RouteInfo) \<Rightarrow> string option" where
  "findParentRouteId routeInfo nameMap =
     findParentRouteId_loop nameMap (join (butlast (ri_segments routeInfo)) ''/'')"

text \<open>
  Parent resolution as the specification words it: the candidates are the proper, non-empty
  prefixes of the name at \<open>/\<close> boundaries, longest first; the first registered one gives
  the parent.
\<close>

definition ancestorNames :: "string list \<Rightarrow> string list" where
  "ancestorNames segs = map (\<lambda>k. join (take k segs) ''/'') (rev [1..<length segs])"

definition firstRegistered :: "(string \<rightharpoonup> RouteInfo) \<Rightarrow> string list \<Rightarrow> string option" where
  "firstRegistered nameMap ns =
     (case List.find (\<lambda>n. nameMap n \<noteq> None) ns of
        None \<Rightarrow> None
      | Some n \<Rightarrow> map_option ri_id (nameMap n))"

definition spec_parentId :: "(string \<rightharpoonup> RouteInfo) \<Rightarrow> string list \<Rightarrow> string option" where
  "spec_parentId nameMap segs = firstRegistered nameMap (ancestorNames segs)"

subsection \<open>Route map\<close>

text \<open>
  A \<open>Map\<close> whose iteration order matters is an association list in insertion order with
  one entry per key; \<open>Map.prototype.set\<close> replaces the value of a key in place and appends a
  new key. The name map is only ever read by key, so it is a partial function.
\<close>

fun Map_set :: "('k \<times> 'v) list \<Rightarrow> 'k \<Rightarrow> 'v \<Rightarrow> ('k \<times> 'v) list" where
  "Map_set [] k v = [(k, v)]"
| "Map_set ((k', v') # m) k v = (if k' = k then (k, v) # m else (k', v') # Map_set m k v)"

definition getRouteInfo_from :: "string \<Rightarrow> string \<Rightarrow> error + RouteInfo" where
  \<comment> \<open>\<open>getRouteInfo\<close> from \<open>routeIdWithoutRoutes\<close> on; the slices of the file path and
      \<open>createFlatRouteId\<close> before it (whose \<open>createRouteId\<close> is defined in \<open>./routes\<close>, not
      among the sources) are taken as done. The literal has no \<open>parentId\<close>.\<close>
  "getRouteInfo_from filePathWithoutApp routeIdWithoutRoutes =
     (let index = isIndexRoute routeIdWithoutRoutes
      in case getRouteSegments routeIdWithoutRoutes of
           Inl e \<Rightarrow> Inl e
         | Inr routeSegments \<Rightarrow>
             (let routePath = createRoutePath routeSegments index
              in Inr \<lparr>ri_id = routeIdWithoutRoutes, ri_path = routePath,
                      ri_file = filePathWithoutApp, ri_name = join routeSegments ''/'',
                      ri_segments = routeSegments, ri_index = index, ri_parentId = None\<rparr>))"

fun getRouteMap_loop ::
  "(string \<times> string) list \<Rightarrow> (string \<times> RouteInfo) list \<Rightarrow> (string \<rightharpoonup> RouteInfo)
     \<Rightarrow> error + ((string \<times> RouteInfo) list \<times> (string \<rightharpoonup> RouteInfo))" where
  \<comment> \<open>the first loop of \<open>getRouteMap\<close>, over the route module files given as pairs of
      \<open>filePathWithoutApp\<close> and \<open>routeIdWithoutRoutes\<close>\<close>
  "getRouteMap_loop [] routeMap nameMap = Inr (routeMap, nameMap)"
| "getRouteMap_loop ((file, routeId) # rest) routeMap nameMap =
     (case getRouteInfo_from file routeId of
        Inl e \<Rightarrow> Inl e
      | Inr routeInfo \<Rightarrow>
          getRouteMap_loop rest (Map_set routeMap (ri_id routeInfo) routeInfo)
            (nameMap(ri_name routeInfo \<mapsto> routeInfo)))"

definition getRouteMap_from :: "(string \<times> string) list \<Rightarrow> error + (string \<times> RouteInfo) list" where
  \<comment> \<open>both loops of \<open>getRouteMap\<close>: collect, then set every \<open>parentId\<close>\<close>
  "getRouteMap_from files =
     (case getRouteMap_loop files [] Map.empty of
        Inl e \<Rightarrow> Inl e
      | Inr (routeMap, nameMap) \<Rightarrow>
          Inr (map (\<lambda>(k, routeInfo).
                      (k, routeInfo\<lparr>ri_parentId := findParentRouteId routeInfo nameMap\<rparr>))
                 routeMap))"

subsection \<open>Tree assembler\<close>

text \<open>
  Modelled from the spec: \<open>defineRoutes\<close> and the \<open>defineRoute\<close> callback it hands out are
  defined in \<open>./routes\<close>, not among the sources. Each call of \<open>defineRoute\<close> emits one route,
  carrying its relative path, its source file, its derived id and its index flag, and runs
  the children callback, whose routes are nested under it; the manifest is the emitted
  forest.
\<close>

datatype RouteNode =
  RouteNode (n_path: string) (n_file: string) (n_id: string) (n_index: bool)
    (n_children: "RouteNode list")

fun nodesOf :: "RouteNode \<Rightarrow> RouteNode list" where
  \<comment> \<open>a route and everything nested under it\<close>
  "nodesOf (RouteNode p f i ix children) =
     RouteNode p f i ix children # concat (map nodesOf children)"

definition emitted :: "RouteNode list \<Rightarrow> RouteNode list" where
  "emitted forest = concat (map nodesOf forest)"

fun splitOn :: "char \<Rightarrow> string \<Rightarrow> string list" where
  \<comment> \<open>the pieces of a string between the occurrences of a separator, empty pieces kept\<close>
  "splitOn sep [] = [[]]"
| "splitOn sep (c # cs) =
     (if c = sep then [] # splitOn sep cs
      else (case splitOn sep cs of [] \<Rightarrow> [[c]] | piece # pieces \<Rightarrow> (c # piece) # pieces))"

fun normalizeString :: "bool \<Rightarrow> string list \<Rightarrow> string list \<Rightarrow> string list" where
  \<comment> \<open>\<open>normalizeString\<close> of Node's \<open>path\<close> module on the components of a path: the
      first list is the result so far; empty components and \<open>.\<close> are dropped, \<open>..\<close> removes
      the component before it unless there is none or it is \<open>..\<close> itself, in which case it is
      kept if the path may climb above its root\<close>
  "normalizeString allowAboveRoot res [] = res"
| "normalizeString allowAboveRoot res (seg # segs) =
     (if seg = [] \<or> seg = ''.'' then normalizeString allowAboveRoot res segs
      else if seg = ''..'' then
        (if res \<noteq> [] \<and> last res \<noteq> ''..'' then normalizeString allowAboveRoot (butlast res) segs
         else if allowAboveRoot then normalizeString allowAboveRoot (res @ [''..'']) segs
         else normalizeString allowAboveRoot res segs)
      else normalizeString allowAboveRoot (res @ [seg]) segs)"

definition posix_normalize :: "string \<Rightarrow> string" where
  \<comment> \<open>\<open>path.posix.normalize\<close> of Node\<close>
  "posix_normalize path =
     (if path = [] then ''.''
      else
        (let isAbsolute = (hd path = CHR ''/'');
             trailingSeparator = (last path = CHR ''/'');
             normalized = join (normalizeString (\<not> isAbsolute) [] (splitOn CHR ''/'' path)) ''/''
         in if normalized = [] then
              (if isAbsolute then ''/'' else if trailingSeparator then ''./'' else ''.'')
            else
              (let withSeparator = (if trailingSeparator then normalized @ ''/'' else normalized)
               in if isAbsolute then ''/'' @ withSeparator else withSeparator)))"

definition posix_join :: "string \<Rightarrow> string \<Rightarrow> string" where
  \<comment> \<open>\<open>path.posix.join(a, b)\<close> of Node: the non-empty arguments joined by \<open>/\<close>, normalised\<close>
  "posix_join a b =
     (let joined = (if a \<noteq> [] \<and> b \<noteq> [] then a @ ''/'' @ b else if a \<noteq> [] then a else b)
      in if joined = [] then ''.'' else posix_normalize joined)"

definition Object_values :: "(string \<times> RouteInfo) list \<Rightarrow> RouteInfo list" where
  \<comment> \<open>\<open>Object.values\<close> applied to a \<open>Map\<close>: the entries of a \<open>Map\<close> live in an internal slot
      and are not own enumerable properties of the object, so the result is the empty array
      whatever the \<open>Map\<close> holds\<close>
  "Object_values routeMap = []"

definition uniqueRouteId :: "RouteInfo \<Rightarrow> string" where
  \<comment> \<open>\<open>(fullPath || "") + (index ? "?index" : "")\<close>\<close>
  "uniqueRouteId childRoute =
     (case ri_path childRoute of None \<Rightarrow> [] | Some fullPath \<Rightarrow> fullPath)
     @ (if ri_index childRoute then ''?index'' else [])"

definition registerUnique :: "(string \<rightharpoonup> string) \<Rightarrow> RouteInfo \<Rightarrow> error + (string \<rightharpoonup> string)" where
  \<comment> \<open>the conflict check: \<open>if (uniqueRouteId) { ... }\<close>; \<open>if (conflict)\<close> holds for a
      non-empty string\<close>
  "registerUnique uniqueRoutes childRoute =
     (let uniqueRouteId = uniqueRouteId childRoute
      in if uniqueRouteId \<noteq> [] then
           (case uniqueRoutes uniqueRouteId of
              Some conflict \<Rightarrow>
                if conflict \<noteq> [] then
                  Inl (RouteConflict (ri_path childRoute) (ri_id childRoute) conflict)
                else Inr (uniqueRoutes(uniqueRouteId \<mapsto> ri_id childRoute))
            | None \<Rightarrow> Inr (uniqueRoutes(uniqueRouteId \<mapsto> ri_id childRoute)))
         else Inr uniqueRoutes)"

definition relativePath :: "RouteInfo \<Rightarrow> string \<Rightarrow> string" where
  \<comment> \<open>\<open>childRoute.path?.slice(parentRoutePath.length) ?? ""\<close>, then one leading slash
      removed\<close>
  "relativePath childRoute parentRoutePath =
     (let routePath = (case ri_path childRoute of
                         None \<Rightarrow> []
                       | Some p \<Rightarrow> drop (length parentRoutePath) p)
      in case routePath of [] \<Rightarrow> [] | c # cs \<Rightarrow> if c = CHR ''/'' then cs else routePath)"

type_synonym assembly = "(error + RouteNode list \<times> (string \<rightharpoonup> string)) option"
  \<comment> \<open>\<open>None\<close>: the recursion did not return within the given depth; otherwise the thrown
      error, or the routes emitted and \<open>uniqueRoutes\<close> afterwards\<close>

fun forChildRoutes ::
  "(string \<Rightarrow> (string \<rightharpoonup> string) \<Rightarrow> assembly) \<Rightarrow> (string \<times> RouteInfo) list \<Rightarrow> string \<Rightarrow> string
     \<Rightarrow> RouteInfo list \<Rightarrow> (string \<rightharpoonup> string) \<Rightarrow> assembly" where
  \<comment> \<open>\<open>for (let childRoute of childRoutes)\<close>; the first argument stands for the nested call
      \<open>defineNestedRoutes(defineRoute, childRoute.id)\<close>\<close>
  "forChildRoutes recurse routeMap prefix parentRoutePath [] uniqueRoutes =
     Some (Inr ([], uniqueRoutes))"
| "forChildRoutes recurse routeMap prefix parentRoutePath (childRoute # rest) uniqueRoutes =
     (let routePath = relativePath childRoute parentRoutePath
      in case registerUnique uniqueRoutes childRoute of
           Inl e \<Rightarrow> Some (Inl e)
         | Inr uniqueRoutes1 \<Rightarrow>
             if ri_index childRoute then
               (let invalidChildRoutes =
                      filter (\<lambda>routeInfo. ri_parentId routeInfo = Some (ri_id childRoute))
                        (Object_values routeMap)
                in if length invalidChildRoutes > 0 then
                     Some (Inl (InvalidIndexChild (ri_id childRoute)))
                   else
                     (case forChildRoutes recurse routeMap prefix parentRoutePath rest
                             uniqueRoutes1 of
                        None \<Rightarrow> None
                      | Some (Inl e) \<Rightarrow> Some (Inl e)
                      | Some (Inr (nodes, uniqueRoutes2)) \<Rightarrow>
                          Some (Inr (RouteNode routePath (ri_file childRoute)
                                       (posix_join prefix (ri_id childRoute)) True [] # nodes,
                                     uniqueRoutes2))))
             else
               (case recurse (ri_id childRoute) uniqueRoutes1 of
                  None \<Rightarrow> None
                | Some (Inl e) \<Rightarrow> Some (Inl e)
                | Some (Inr (children, uniqueRoutes2)) \<Rightarrow>
                    (case forChildRoutes recurse routeMap prefix parentRoutePath rest
                            uniqueRoutes2 of
                       None \<Rightarrow> None
                     | Some (Inl e) \<Rightarrow> Some (Inl e)
                     | Some (Inr (nodes, uniqueRoutes3)) \<Rightarrow>
                         Some (Inr (RouteNode routePath (ri_file childRoute)
                                      (posix_join prefix (ri_id childRoute)) False children
                                      # nodes,
                                    uniqueRoutes3)))))"

fun defineNestedRoutes ::
  "nat \<Rightarrow> (string \<times> RouteInfo) list \<Rightarrow> string \<Rightarrow> string option \<Rightarrow> (string \<rightharpoonup> string)
     \<Rightarrow> assembly" where
  \<comment> \<open>the first argument bounds the depth of the recursion\<close>
  "defineNestedRoutes 0 routeMap prefix parentId uniqueRoutes = None"
| "defineNestedRoutes (Suc depth) routeMap prefix parentId uniqueRoutes =
     (let routes = map snd routeMap;
          childRoutes = filter (\<lambda>routeInfo. ri_parentId routeInfo = parentId) routes;
          parentRoute = (case parentId of
                           None \<Rightarrow> None
                         | Some p \<Rightarrow> if p \<noteq> [] then map_of routeMap p else None);
          parentRoutePath = (case parentRoute of
                               None \<Rightarrow> ''/''
                             | Some r \<Rightarrow> (case ri_path r of None \<Rightarrow> ''/'' | Some p \<Rightarrow> p))
      in forChildRoutes (\<lambda>childId. defineNestedRoutes depth routeMap prefix (Some childId))
           routeMap prefix parentRoutePath childRoutes uniqueRoutes)"

definition flatRoutesUniversal ::
  "nat \<Rightarrow> (string \<times> RouteInfo) list \<Rightarrow> string \<Rightarrow> (error + RouteNode list) option" where
  \<comment> \<open>\<open>flatRoutesUniversal\<close> from the route map that \<open>getRouteMap\<close> returned\<close>
  "flatRoutesUniversal depth routeMap prefix =
     (case defineNestedRoutes depth routeMap prefix None Map.empty of
        None \<Rightarrow> None
      | Some (Inl e) \<Rightarrow> Some (Inl e)
      | Some (Inr (forest, uniqueRoutes)) \<Rightarrow> Some (Inr forest))"

text \<open>
  The traversal without the bookkeeping: the routes in the order in which
  \<open>defineNestedRoutes\<close> reaches them. The children of the given parent come in the order of
  the route map, and each one that is not an index route is followed by what is reached below
  it. \<open>None\<close> means that the given depth does not suffice.
\<close>

fun reachedFrom :: "(string \<Rightarrow> RouteInfo list option) \<Rightarrow> RouteInfo list \<Rightarrow> RouteInfo list option" where
  "reachedFrom below [] = Some []"
| "reachedFrom below (c # rest) =
     (case (if ri_index c then Some [] else below (ri_id c)) of
        None \<Rightarrow> None
      | Some sub \<Rightarrow>
          (case reachedFrom below rest of
             None \<Rightarrow> None
           | Some vs \<Rightarrow> Some (c # sub @ vs)))"

fun reached :: "nat \<Rightarrow> (string \<times> RouteInfo) list \<Rightarrow> string option \<Rightarrow> RouteInfo list option" where
  "reached 0 routeMap parentId = None"
| "reached (Suc depth) routeMap parentId =
     reachedFrom (\<lambda>childId. reached depth routeMap (Some childId))
       (filter (\<lambda>routeInfo. ri_parentId routeInfo = parentId) (map snd routeMap))"

text \<open>The conflict check applied to a list of routes in turn, stopping at the first throw.\<close>

fun registerAll :: "(string \<rightharpoonup> string) \<Rightarrow> RouteInfo list \<Rightarrow> error + (string \<rightharpoonup> string)" where
  "registerAll uniqueRoutes [] = Inr uniqueRoutes"
| "registerAll uniqueRoutes (r # rs) =
     (case registerUnique uniqueRoutes r of
        Inl e \<Rightarrow> Inl e
      | Inr uniqueRoutes1 \<Rightarrow> registerAll uniqueRoutes1 rs)"

definition idsForKeys :: "RouteInfo list \<Rightarrow> bool" where
  \<comment> \<open>a route that takes part in the conflict check has a non-empty id\<close>
  "idsForKeys routes = (\<forall>r \<in> set routes. uniqueRouteId r \<noteq> [] \<longrightarrow> ri_id r \<noteq> [])"

text \<open>What an emitted route shows of the route it was emitted for: file, id and index flag.\<close>

definition routeSig :: "string \<Rightarrow> RouteInfo \<Rightarrow> string \<times> string \<times> bool" where
  "routeSig prefix r = (ri_file r, posix_join prefix (ri_id r), ri_index r)"

definition nodeSig :: "RouteNode \<Rightarrow> string \<times> string \<times> bool" where
  "nodeSig n = (n_file n, n_id n, n_index n)"

definition refines :: "string \<Rightarrow> (string \<rightharpoonup> string) \<Rightarrow> RouteInfo list \<Rightarrow> assembly \<Rightarrow> bool" where
  \<comment> \<open>an outcome of the assembler that is the conflict check run over the given routes: its
      first throw, or else one emitted route per given route, in the same order\<close>
  "refines prefix u vs res =
     (case registerAll u vs of
        Inl e \<Rightarrow> res = Some (Inl e)
      | Inr u' \<Rightarrow>
          (\<exists>forest. res = Some (Inr (forest, u'))
             \<and> map nodeSig (emitted forest) = map (routeSig prefix) vs
             \<and> (\<forall>n \<in> set (emitted forest). n_index n \<longrightarrow> n_children n = [])))"

text \<open>
  The routes above a nested call, innermost first: each is the parent of the one before it,
  the last one hangs off the root.
\<close>

fun parentChain :: "RouteInfo list \<Rightarrow> string option \<Rightarrow> bool" where
  "parentChain [] P = (P = None)"
| "parentChain (c # cs) P = (P = Some (ri_id c) \<and> parentChain cs (ri_parentId c))"

text \<open>
  The registry after the conflict check has gone through a list of routes: it holds, under
  each non-empty key among them, the id of the route with that key. The keys that take part
  in the check are the non-empty ones.
\<close>

definition represents :: "(string \<rightharpoonup> string) \<Rightarrow> RouteInfo list \<Rightarrow> bool" where
  "represents u seen =
     (\<forall>k v. u k = Some v \<longleftrightarrow> k \<noteq> [] \<and> (\<exists>r \<in> set seen. uniqueRouteId r = k \<and> ri_id r = v))"

definition keysOf :: "RouteInfo list \<Rightarrow> string list" where
  "keysOf rs = filter (\<lambda>k. k \<noteq> []) (map uniqueRouteId rs)"

text \<open>
  What the first loop of \<open>getRouteMap\<close> keeps true of the two maps: an entry is stored under
  its id, its segments are the tokenizer's, its name is their join and is registered; a
  registered route is registered under its own name and its id is a key of the route map.
\<close>

definition collectedOK :: "(string \<times> RouteInfo) list \<Rightarrow> (string \<rightharpoonup> RouteInfo) \<Rightarrow> bool" where
  "collectedOK rm nm =
     ((\<forall>(k, r) \<in> set rm. k = ri_id r \<and> getRouteSegments (ri_id r) = Inr (ri_segments r)
          \<and> ri_name r = join (ri_segments r) ''/'' \<and> ri_name r \<in> dom nm)
      \<and> (\<forall>n r0. nm n = Some r0 \<longrightarrow> ri_name r0 = n \<and> ri_id r0 \<in> fst ` set rm))"

section \<open>Properties\<close>

subsection \<open>Tokenizer lemmas\<close>

lemma push_Inr: "\<not> rejected (seg, raw) \<Longrightarrow>
   pushRouteSegment rid raw segs seg = Inr (segs @ (if seg = [] then [] else [seg]))"
  by (auto simp: pushRouteSegment_def rejected_def str_includes_def)

lemma push_Inl: "rejected (seg, raw) \<Longrightarrow> isl (pushRouteSegment rid raw segs seg)"
  by (auto simp: pushRouteSegment_def rejected_def str_includes_def)

lemma tokenize_simps:
  "tokenize rid [] st seg raw segs = pushRouteSegment rid raw segs seg"
  "tokenize rid (c # rest) NORMAL seg raw segs =
     (if isSegmentSeparator c then
        (case pushRouteSegment rid raw segs seg of Inl e \<Rightarrow> Inl e
         | Inr segs' \<Rightarrow> tokenize rid rest NORMAL [] [] segs')
      else if c = escapeStart then tokenize rid rest ESCAPE seg raw segs
      else if c = optionalStart then tokenize rid rest OPTIONAL seg raw segs
      else if seg = [] \<and> c = paramPrefixChar then
        tokenize rid rest NORMAL (if rest = [] then ''*'' else '':'') (raw @ [c]) segs
      else tokenize rid rest NORMAL (seg @ [c]) (raw @ [c]) segs)"
  "tokenize rid (c # rest) ESCAPE seg raw segs =
     (if c = escapeEnd then tokenize rid rest NORMAL seg raw segs
      else tokenize rid rest ESCAPE (seg @ [c]) (raw @ [c]) segs)"
  "tokenize rid (c # rest) OPTIONAL seg raw segs =
     (if c = optionalEnd then tokenize rid rest NORMAL (seg @ ''?'') (raw @ ''?'') segs
      else if c = escapeStart then tokenize rid rest OPTIONAL_ESCAPE seg raw segs
      else if seg = [] \<and> c = paramPrefixChar then
        tokenize rid rest OPTIONAL (if rest = [] then ''*'' else '':'') (raw @ [c]) segs
      else tokenize rid rest OPTIONAL (seg @ [c]) (raw @ [c]) segs)"
  "tokenize rid (c # rest) OPTIONAL_ESCAPE seg raw segs =
     (if c = escapeEnd then tokenize rid rest OPTIONAL seg raw segs
      else tokenize rid rest OPTIONAL_ESCAPE (seg @ [c]) (raw @ [c]) segs)"
  by (auto simp: tokenize_def split: sum.splits)

lemma tokenize_flushes:
  "tokenize rid cs st seg raw segs = pushAll rid segs (flushes cs st seg raw)"
proof (induction cs arbitrary: st seg raw segs)
  case Nil
  show ?case by (simp add: tokenize_simps split: sum.splits)
next
  case (Cons c rest)
  show ?case
    by (cases st) (simp_all add: tokenize_simps Cons.IH split: sum.splits)
qed

lemma pushAll_isl:
  "isl (pushAll rid segs fs) \<longleftrightarrow> (\<exists>p \<in> set fs. rejected p)"
proof (induction fs arbitrary: segs)
  case Nil
  show ?case by simp
next
  case (Cons p fs)
  obtain sg rw where p: "p = (sg, rw)" by (cases p)
  show ?case
  proof (cases "rejected (sg, rw)")
    case True
    then show ?thesis using push_Inl[OF True, of rid segs] p
      by (auto split: sum.splits)
  next
    case False
    then show ?thesis using p by (simp add: push_Inr Cons.IH)
  qed
qed

lemma pushAll_Inr:
  "\<forall>p \<in> set fs. \<not> rejected p \<Longrightarrow>
     pushAll rid segs fs = Inr (segs @ filter (\<lambda>sg. sg \<noteq> []) (map fst fs))"
  by (induction fs arbitrary: segs) (auto simp: push_Inr)

lemma getRouteSegments_tokenize:
  "getRouteSegments s = tokenize (stripFolderMarker s) (stripFolderMarker s) NORMAL [] [] []"
  by (simp add: getRouteSegments_def tokenize_def Let_def)

lemma raw_char_flushed:
  "c \<in> set raw \<Longrightarrow> seg \<noteq> [] \<Longrightarrow>
     \<exists>p \<in> set (flushes cs st seg raw). fst p \<noteq> [] \<and> c \<in> set (snd p)"
proof (induction cs arbitrary: st seg raw)
  case Nil
  then show ?case by simp
next
  case (Cons a rest)
  then show ?case by (cases st) simp_all
qed

lemma flushes_plain_char:
  assumes "\<not> isSegmentSeparator c" "c \<noteq> escapeStart" "c \<noteq> escapeEnd"
    "c \<noteq> optionalStart" "c \<noteq> optionalEnd" "c \<noteq> paramPrefixChar"
  shows "flushes (c # rest) st seg raw = flushes rest st (seg @ [c]) (raw @ [c])"
  using assms by (cases st) simp_all

lemma input_char_flushed:
  assumes "\<not> isSegmentSeparator c" "c \<noteq> escapeStart" "c \<noteq> escapeEnd"
    "c \<noteq> optionalStart" "c \<noteq> optionalEnd" "c \<noteq> paramPrefixChar"
  shows "c \<in> set cs \<Longrightarrow> \<exists>p \<in> set (flushes cs st seg raw). fst p \<noteq> [] \<and> c \<in> set (snd p)"
proof (induction cs arbitrary: st seg raw)
  case Nil
  then show ?case by simp
next
  case (Cons a rest)
  show ?case
  proof (cases "a = c")
    case True
    show ?thesis
      unfolding True flushes_plain_char[OF assms]
      by (rule raw_char_flushed) simp_all
  next
    case False
    then have "c \<in> set rest" using Cons.prems by simp
    note IH = Cons.IH[OF this]
    show ?thesis by (cases st) (simp_all add: IH)
  qed
qed

subsection \<open>Parent resolution lemmas\<close>

lemma join_snoc: "xs \<noteq> [] \<Longrightarrow> join (xs @ [x]) sep = join xs sep @ sep @ x"
  by (induction xs sep rule: join.induct) simp_all

lemma truncate_snoc:
  assumes "CHR ''/'' \<notin> set x"
  shows "substring0 (p @ ''/'' @ x) (lastIndexOf (p @ ''/'' @ x) CHR ''/'') = p"
proof -
  have "takeWhile (\<lambda>c. c \<noteq> CHR ''/'') (rev x @ CHR ''/'' # rev p) = rev x"
    using assms by (auto simp: takeWhile_tail)
  then have "lastIndexOf (p @ ''/'' @ x) CHR ''/'' = int (length p)"
    by (simp add: lastIndexOf_def)
  then show ?thesis by (simp add: substring0_def)
qed

lemma truncate_none:
  "CHR ''/'' \<notin> set x \<Longrightarrow> substring0 x (lastIndexOf x CHR ''/'') = []"
  by (simp add: substring0_def lastIndexOf_def)

lemma truncate_join:
  assumes "CHR ''/'' \<notin> set y"
  shows "substring0 (join (ys @ [y]) ''/'') (lastIndexOf (join (ys @ [y]) ''/'') CHR ''/'')
         = join ys ''/''"
proof (cases "ys = []")
  case True
  then show ?thesis using assms by (simp add: truncate_none)
next
  case False
  then show ?thesis using truncate_snoc[OF assms, of "join ys ''/''"] by (simp add: join_snoc)
qed

lemma join_nonempty: "xs \<noteq> [] \<Longrightarrow> \<forall>x \<in> set xs. x \<noteq> [] \<Longrightarrow> join xs sep \<noteq> []"
  by (induction xs sep rule: join.induct) simp_all

lemma firstRegistered_simps:
  "firstRegistered m [] = None"
  "firstRegistered m (n # ns) = (case m n of Some r \<Rightarrow> Some (ri_id r) | None \<Rightarrow> firstRegistered m ns)"
  by (auto simp: firstRegistered_def split: option.splits)

lemma loop_join:
  "\<forall>x \<in> set xs. x \<noteq> [] \<and> CHR ''/'' \<notin> set x \<Longrightarrow>
   findParentRouteId_loop nameMap (join xs ''/'') =
     firstRegistered nameMap (map (\<lambda>k. join (take k xs) ''/'') (rev [1..<Suc (length xs)]))"
proof (induction xs rule: rev_induct)
  case Nil
  show ?case by (simp add: firstRegistered_simps findParentRouteId_loop.simps)
next
  case (snoc y ys)
  have ok: "CHR ''/'' \<notin> set y" and ne: "join (ys @ [y]) ''/'' \<noteq> []"
    using snoc.prems join_nonempty[of "ys @ [y]" "''/''"] by auto
  have IH: "findParentRouteId_loop nameMap (join ys ''/'') =
     firstRegistered nameMap (map (\<lambda>k. join (take k ys) ''/'') (rev [1..<Suc (length ys)]))"
    using snoc by simp
  have cands: "map (\<lambda>k. join (take k (ys @ [y])) ''/'') (rev [1..<Suc (length (ys @ [y]))])
      = join (ys @ [y]) ''/'' # map (\<lambda>k. join (take k ys) ''/'') (rev [1..<Suc (length ys)])"
    by auto
  show ?case
    unfolding cands firstRegistered_simps
    by (subst findParentRouteId_loop.simps) (simp add: ne truncate_join[OF ok] IH split: option.splits)
qed

lemma findParentRouteId_spec:
  assumes "\<forall>x \<in> set (ri_segments r). x \<noteq> [] \<and> CHR ''/'' \<notin> set x"
  shows "findParentRouteId r nameMap = spec_parentId nameMap (ri_segments r)"
proof -
  have b: "\<forall>x \<in> set (butlast (ri_segments r)). x \<noteq> [] \<and> CHR ''/'' \<notin> set x"
    using assms by (auto dest: in_set_butlastD)
  have "map (\<lambda>k. join (take k (butlast (ri_segments r))) ''/'')
          (rev [1..<Suc (length (butlast (ri_segments r)))]) = ancestorNames (ri_segments r)"
    unfolding ancestorNames_def
    by (cases "ri_segments r = []") (auto simp: take_butlast Suc_diff_Suc)
  then show ?thesis
    using loop_join[OF b, of nameMap]
    by (simp add: findParentRouteId_def spec_parentId_def)
qed

lemma flushes_slash:
  "(CHR ''/'' \<in> set seg \<longrightarrow> CHR ''/'' \<in> set raw) \<Longrightarrow>
   \<forall>p \<in> set (flushes cs st seg raw). CHR ''/'' \<in> set (fst p) \<longrightarrow> CHR ''/'' \<in> set (snd p)"
  by (induction cs st seg raw rule: flushes.induct) (simp_all split: if_splits)

lemma getRouteSegments_segments:
  assumes "getRouteSegments s = Inr segs"
  shows "\<forall>x \<in> set segs. x \<noteq> [] \<and> CHR ''/'' \<notin> set x"
proof -
  let ?fs = "flushes (stripFolderMarker s) NORMAL [] []"
  have eq: "getRouteSegments s = pushAll (stripFolderMarker s) [] ?fs"
    by (simp add: getRouteSegments_tokenize tokenize_flushes)
  have nr: "\<forall>p \<in> set ?fs. \<not> rejected p"
    using assms pushAll_isl[of "stripFolderMarker s" "[]" ?fs] eq by auto
  then have segs: "segs = filter (\<lambda>sg. sg \<noteq> []) (map fst ?fs)"
    using assms eq pushAll_Inr[OF nr, of "stripFolderMarker s" "[]"] by simp
  have sl: "\<forall>p \<in> set ?fs. CHR ''/'' \<in> set (fst p) \<longrightarrow> CHR ''/'' \<in> set (snd p)"
    by (rule flushes_slash) simp
  show ?thesis
  proof
    fix x assume "x \<in> set segs"
    then obtain p where p: "p \<in> set ?fs" "x = fst p" "x \<noteq> []"
      unfolding segs by auto
    with nr have "CHR ''/'' \<notin> set (snd p)" by (auto simp: rejected_def)
    with sl p show "x \<noteq> [] \<and> CHR ''/'' \<notin> set x" by auto
  qed
qed

subsection \<open>Tree assembler lemmas\<close>

lemma emitted_simps:
  "emitted [] = []"
  "emitted (RouteNode p f i ix children # nodes) =
     RouteNode p f i ix children # emitted children @ emitted nodes"
  by (simp_all add: emitted_def)

lemma forChildRoutes_Inr_cases:
  assumes "forChildRoutes recurse rm prefix prp (c # rest) u = Some (Inr (forest, u'))"
  obtains u1 nodes where "registerUnique u c = Inr u1" "ri_index c"
      "forChildRoutes recurse rm prefix prp rest u1 = Some (Inr (nodes, u'))"
      "forest = RouteNode (relativePath c prp) (ri_file c) (posix_join prefix (ri_id c)) True [] # nodes"
  | u1 children u2 nodes where "registerUnique u c = Inr u1" "\<not> ri_index c"
      "recurse (ri_id c) u1 = Some (Inr (children, u2))"
      "forChildRoutes recurse rm prefix prp rest u2 = Some (Inr (nodes, u'))"
      "forest = RouteNode (relativePath c prp) (ri_file c) (posix_join prefix (ri_id c)) False children # nodes"
  using assms
  by (auto simp: Let_def Object_values_def split: sum.splits if_splits option.splits)

lemma forChildRoutes_returns:
  "(\<And>c v. c \<in> set children \<Longrightarrow> recurse (ri_id c) v \<noteq> None) \<Longrightarrow>
   forChildRoutes recurse rm prefix prp children u \<noteq> None"
proof (induction children arbitrary: u)
  case Nil
  show ?case by simp
next
  case (Cons c rest)
  have rest: "forChildRoutes recurse rm prefix prp rest v \<noteq> None" for v
    using Cons.IH Cons.prems by simp
  have c: "recurse (ri_id c) v \<noteq> None" for v
    using Cons.prems by simp
  show ?case
  proof (cases "registerUnique u c")
    case (Inl e)
    then show ?thesis by (simp add: Let_def)
  next
    case (Inr u1)
    show ?thesis
    proof (cases "ri_index c")
      case True
      then show ?thesis using Inr rest [of u1]
        by (auto simp: Let_def Object_values_def split: option.splits sum.splits)
    next
      case False
      obtain a where a: "recurse (ri_id c) u1 = Some a" using c [of u1] by auto
      show ?thesis
      proof (cases a)
        case (Inl e)
        then show ?thesis using Inr False a by (simp add: Let_def)
      next
        case cInr: (Inr p)
        obtain children u2 where "p = (children, u2)" by (cases p)
        then show ?thesis using Inr False a cInr rest [of u2]
          by (auto simp: Let_def split: option.splits sum.splits)
      qed
    qed
  qed
qed

lemma parentChain_split:
  "parentChain cs Q \<Longrightarrow> c \<in> set cs \<Longrightarrow>
     \<exists>pre post. cs = pre @ c # post \<and> parentChain post (ri_parentId c)"
proof (induction cs arbitrary: Q)
  case Nil
  then show ?case by simp
next
  case (Cons x xs)
  show ?case
  proof (cases "c = x")
    case True
    then have "x # xs = [] @ c # xs \<and> parentChain xs (ri_parentId c)"
      using Cons.prems(1) by simp
    then show ?thesis by blast
  next
    case False
    then have "c \<in> set xs" using Cons.prems(2) by simp
    moreover have "parentChain xs (ri_parentId x)" using Cons.prems(1) by simp
    ultimately obtain pre post where "xs = pre @ c # post" "parentChain post (ri_parentId c)"
      using Cons.IH by blast
    then have "x # xs = (x # pre) @ c # post \<and> parentChain post (ri_parentId c)" by simp
    then show ?thesis by blast
  qed
qed

lemma parentChain_fresh:
  assumes inj: "inj_on ri_id (set routes)" and sub: "set cs \<subseteq> set routes" and d: "distinct cs"
    and ch: "parentChain cs P" and c: "c \<in> set routes" and par: "ri_parentId c = P"
  shows "c \<notin> set cs"
proof
  assume mem: "c \<in> set cs"
  then obtain c0 cs0 where cs: "cs = c0 # cs0" by (cases cs) auto
  then have P: "P = Some (ri_id c0)" using ch by simp
  from parentChain_split [OF ch mem] obtain pre post
    where sp: "cs = pre @ c # post" and pc: "parentChain post (ri_parentId c)" by blast
  from pc par P obtain c1 post1 where post: "post = c1 # post1" and id1: "ri_id c1 = ri_id c0"
    by (cases post) auto
  have "c0 \<in> set routes" using sub cs by simp
  moreover have "c1 \<in> set routes" using sub sp post by auto
  ultimately have "c1 \<in> set routes" "c0 \<in> set routes" by simp_all
  then have "c1 = c0" using inj id1 by (blast dest: inj_onD)
  then have "c0 \<in> set post" using post by simp
  moreover have "c0 \<in> set (pre @ [c])" using sp cs by (cases pre) auto
  ultimately show False using d unfolding sp by auto
qed

lemma defineNestedRoutes_returns_chain:
  assumes inj: "inj_on ri_id (set (map snd rm))"
  shows "set cs \<subseteq> set (map snd rm) \<Longrightarrow> distinct cs \<Longrightarrow> parentChain cs P \<Longrightarrow>
         length rm < length cs + depth \<Longrightarrow>
         defineNestedRoutes depth rm prefix P u \<noteq> None"
proof (induction depth arbitrary: cs P u)
  case 0
  have "length cs = card (set cs)" using 0(2) by (simp add: distinct_card)
  also have "\<dots> \<le> card (set (map snd rm))" using 0(1) by (intro card_mono) simp_all
  also have "\<dots> \<le> length rm" using card_length [of "map snd rm"] by simp
  finally show ?case using 0(4) by simp
next
  case (Suc depth)
  let ?children = "filter (\<lambda>routeInfo. ri_parentId routeInfo = P) (map snd rm)"
  have rec: "defineNestedRoutes depth rm prefix (Some (ri_id c)) v \<noteq> None"
    if "c \<in> set ?children" for c v
  proof (rule Suc.IH [of "c # cs"])
    have c: "c \<in> set (map snd rm)" "ri_parentId c = P" using that by auto
    show "set (c # cs) \<subseteq> set (map snd rm)" using c Suc.prems(1) by simp
    show "distinct (c # cs)"
      using parentChain_fresh [OF inj Suc.prems(1,2,3) c] Suc.prems(2) by simp
    show "parentChain (c # cs) (Some (ri_id c))" using c Suc.prems(3) by simp
    show "length rm < length (c # cs) + depth" using Suc.prems(4) by simp
  qed
  show ?case
    unfolding defineNestedRoutes.simps Let_def
    by (rule forChildRoutes_returns) (rule rec)
qed

lemma flatRoutesUniversal_returns:
  assumes "distinct (map (ri_id \<circ> snd) rm)"
  shows "flatRoutesUniversal (Suc (length rm)) rm prefix \<noteq> None"
proof -
  have inj: "inj_on ri_id (set (map snd rm))"
    using assms by (simp add: distinct_map flip: map_map)
  have "defineNestedRoutes (Suc (length rm)) rm prefix None Map.empty \<noteq> None"
    by (rule defineNestedRoutes_returns_chain [OF inj, of "[]"]) simp_all
  then show ?thesis
    by (auto simp: flatRoutesUniversal_def split: option.splits sum.splits)
qed

lemma forChildRoutes_mono:
  "(\<And>c v x. rec1 c v = Some x \<Longrightarrow> rec2 c v = Some x) \<Longrightarrow>
   forChildRoutes rec1 rm prefix prp children u = Some x \<Longrightarrow>
   forChildRoutes rec2 rm prefix prp children u = Some x"
proof (induction children arbitrary: u x)
  case Nil
  then show ?case by simp
next
  case (Cons c rest)
  have rest: "forChildRoutes rec2 rm prefix prp rest v = Some y"
    if "forChildRoutes rec1 rm prefix prp rest v = Some y" for v y
    using Cons.IH [OF Cons.prems(1) that] .
  show ?case using Cons.prems(2)
    by (auto simp: Let_def Object_values_def dest!: rest Cons.prems(1)
        split: sum.splits if_splits option.splits prod.splits)
qed

lemma defineNestedRoutes_mono:
  "defineNestedRoutes depth rm prefix P u = Some x \<Longrightarrow>
   defineNestedRoutes (Suc depth) rm prefix P u = Some x"
proof (induction depth arbitrary: P u x)
  case 0
  then show ?case by simp
next
  case (Suc depth)
  note e1 = defineNestedRoutes.simps(2) [of depth rm prefix P u, unfolded Let_def]
  note e2 = defineNestedRoutes.simps(2) [of "Suc depth" rm prefix P u, unfolded Let_def]
  show ?case
    unfolding e2 using Suc.prems [unfolded e1]
    by (rule forChildRoutes_mono [rotated]) (rule Suc.IH)
qed

lemma registerUnique_not_index_error: "registerUnique u c \<noteq> Inl (InvalidIndexChild i)"
  by (simp add: registerUnique_def Let_def split: option.splits)

lemma forChildRoutes_no_index_error:
  "(\<And>c v. recurse c v \<noteq> Some (Inl (InvalidIndexChild i))) \<Longrightarrow>
   forChildRoutes recurse rm prefix prp children u \<noteq> Some (Inl (InvalidIndexChild i))"
proof (induction children arbitrary: u)
  case Nil
  show ?case by simp
next
  case (Cons c rest)
  have rest: "forChildRoutes recurse rm prefix prp rest v \<noteq> Some (Inl (InvalidIndexChild i))" for v
    using Cons.IH Cons.prems by simp
  show ?case
    using rest Cons.prems registerUnique_not_index_error [of u c i]
    by (auto simp: Let_def Object_values_def split: sum.splits option.splits prod.splits)
qed

lemma defineNestedRoutes_no_index_error:
  "defineNestedRoutes depth rm prefix P u \<noteq> Some (Inl (InvalidIndexChild i))"
proof (induction depth arbitrary: P u)
  case 0
  show ?case by simp
next
  case (Suc depth)
  show ?case
    unfolding defineNestedRoutes.simps(2) [of depth rm prefix P u, unfolded Let_def]
    by (rule forChildRoutes_no_index_error) (rule Suc.IH)
qed

lemma registerAll_append:
  "registerAll u (xs @ ys) =
     (case registerAll u xs of Inl e \<Rightarrow> Inl e | Inr u1 \<Rightarrow> registerAll u1 ys)"
  by (induction xs arbitrary: u) (simp_all split: sum.splits)

lemma reachedFrom_Cons_Some:
  assumes "reachedFrom below (c # rest) = Some vs"
  obtains sub vs' where "(if ri_index c then Some [] else below (ri_id c)) = Some sub"
    "reachedFrom below rest = Some vs'" "vs = c # sub @ vs'"
  using assms by (auto split: option.splits if_splits)

lemma forChildRoutes_refines:
  assumes rec: "\<And>c v sub. c \<in> set children \<Longrightarrow> \<not> ri_index c \<Longrightarrow> below (ri_id c) = Some sub \<Longrightarrow>
                  refines prefix v sub (recurse (ri_id c) v)"
    and reach: "reachedFrom below children = Some vs"
  shows "refines prefix u vs (forChildRoutes recurse rm prefix prp children u)"
  using rec reach
proof (induction children arbitrary: u vs)
  case Nil
  then show ?case by (simp add: refines_def emitted_def)
next
  case (Cons c rest)
  from Cons.prems(2) obtain sub vs' where
      sub: "(if ri_index c then Some [] else below (ri_id c)) = Some sub"
      and rest: "reachedFrom below rest = Some vs'" and vs: "vs = c # sub @ vs'"
    by (rule reachedFrom_Cons_Some)
  have IH: "refines prefix v vs' (forChildRoutes recurse rm prefix prp rest v)" for v
  proof (rule Cons.IH [OF _ rest])
    fix c' w sub'
    assume "c' \<in> set rest" "\<not> ri_index c'" "below (ri_id c') = Some sub'"
    then show "refines prefix w sub' (recurse (ri_id c') w)"
      using Cons.prems(1) [of c' sub' w] by simp
  qed
  let ?node = "RouteNode (relativePath c prp) (ri_file c) (posix_join prefix (ri_id c))"
  show ?case
  proof (cases "registerUnique u c")
    case (Inl e)
    then show ?thesis by (simp add: refines_def vs Let_def)
  next
    case (Inr u1)
    show ?thesis
    proof (cases "ri_index c")
      case True
      then have sub0: "sub = []" using sub by simp
      let ?R = "forChildRoutes recurse rm prefix prp rest u1"
      have eq: "forChildRoutes recurse rm prefix prp (c # rest) u =
                (case ?R of None \<Rightarrow> None | Some (Inl e) \<Rightarrow> Some (Inl e)
                 | Some (Inr (nodes, u2)) \<Rightarrow> Some (Inr (?node True [] # nodes, u2)))"
        using Inr True by (simp add: Let_def Object_values_def)
      have ra: "registerAll u vs = registerAll u1 vs'"
        using Inr by (simp add: vs sub0)
      show ?thesis
      proof (cases "registerAll u1 vs'")
        case (Inl e)
        then have "?R = Some (Inl e)" using IH [of u1] by (simp add: refines_def)
        then show ?thesis unfolding eq using Inl ra by (simp add: refines_def)
      next
        case rInr: (Inr u')
        then obtain nodes where R: "?R = Some (Inr (nodes, u'))"
            and sig: "map nodeSig (emitted nodes) = map (routeSig prefix) vs'"
            and leaf: "\<forall>n \<in> set (emitted nodes). n_index n \<longrightarrow> n_children n = []"
          using IH [of u1] by (auto simp: refines_def)
        have "map nodeSig (emitted (?node True [] # nodes)) = map (routeSig prefix) vs"
          using sig True by (simp add: emitted_simps vs sub0 nodeSig_def routeSig_def emitted_def)
        moreover have "\<forall>n \<in> set (emitted (?node True [] # nodes)). n_index n \<longrightarrow> n_children n = []"
          using leaf by (simp add: emitted_simps emitted_def)
        ultimately show ?thesis unfolding eq R using rInr ra by (simp add: refines_def)
      qed
    next
      case False
      then have below: "below (ri_id c) = Some sub" using sub by simp
      let ?C = "recurse (ri_id c) u1"
      have C: "refines prefix u1 sub ?C"
        using Cons.prems(1) [of c sub u1] False below by simp
      have ra: "registerAll u vs =
                (case registerAll u1 sub of Inl e \<Rightarrow> Inl e | Inr u2 \<Rightarrow> registerAll u2 vs')"
        using Inr by (simp add: vs registerAll_append)
      show ?thesis
      proof (cases "registerAll u1 sub")
        case (Inl e)
        then have "?C = Some (Inl e)" using C by (simp add: refines_def)
        then have "forChildRoutes recurse rm prefix prp (c # rest) u = Some (Inl e)"
          using Inr False by (simp add: Let_def)
        then show ?thesis using Inl ra by (simp add: refines_def)
      next
        case cInr: (Inr u2)
        then obtain children where Cres: "?C = Some (Inr (children, u2))"
            and csig: "map nodeSig (emitted children) = map (routeSig prefix) sub"
            and cleaf: "\<forall>n \<in> set (emitted children). n_index n \<longrightarrow> n_children n = []"
          using C by (auto simp: refines_def)
        let ?R = "forChildRoutes recurse rm prefix prp rest u2"
        have eq: "forChildRoutes recurse rm prefix prp (c # rest) u =
                (case ?R of None \<Rightarrow> None | Some (Inl e) \<Rightarrow> Some (Inl e)
                 | Some (Inr (nodes, u3)) \<Rightarrow> Some (Inr (?node False children # nodes, u3)))"
          using Inr False Cres by (simp add: Let_def)
        have ra2: "registerAll u vs = registerAll u2 vs'" using ra cInr by simp
        show ?thesis
        proof (cases "registerAll u2 vs'")
          case (Inl e)
          then have "?R = Some (Inl e)" using IH [of u2] by (simp add: refines_def)
          then show ?thesis unfolding eq using Inl ra2 by (simp add: refines_def)
        next
          case rInr: (Inr u')
          then obtain nodes where R: "?R = Some (Inr (nodes, u'))"
              and sig: "map nodeSig (emitted nodes) = map (routeSig prefix) vs'"
              and leaf: "\<forall>n \<in> set (emitted nodes). n_index n \<longrightarrow> n_children n = []"
            using IH [of u2] by (auto simp: refines_def)
          have "map nodeSig (emitted (?node False children # nodes)) = map (routeSig prefix) vs"
            using sig csig False
            by (simp add: emitted_simps vs nodeSig_def routeSig_def)
          moreover have "\<forall>n \<in> set (emitted (?node False children # nodes)).
                           n_index n \<longrightarrow> n_children n = []"
            using leaf cleaf by (auto simp: emitted_simps)
          ultimately show ?thesis unfolding eq R using rInr ra2 by (simp add: refines_def)
        qed
      qed
    qed
  qed
qed

lemma defineNestedRoutes_refines:
  "reached depth rm P = Some vs \<Longrightarrow> refines prefix u vs (defineNestedRoutes depth rm prefix P u)"
proof (induction depth arbitrary: P u vs)
  case 0
  then show ?case by simp
next
  case (Suc depth)
  note e = defineNestedRoutes.simps(2) [of depth rm prefix P u, unfolded Let_def]
  show ?case
    unfolding e
    by (rule forChildRoutes_refines
          [where below = "\<lambda>childId. reached depth rm (Some childId)"])
       (use Suc in simp_all)
qed

lemma forChildRoutes_success_reached:
  assumes rec: "\<And>c v f v'. c \<in> set children \<Longrightarrow> \<not> ri_index c \<Longrightarrow>
                  recurse (ri_id c) v = Some (Inr (f, v')) \<Longrightarrow> below (ri_id c) \<noteq> None"
    and run: "forChildRoutes recurse rm prefix prp children u = Some (Inr (forest, u'))"
  shows "reachedFrom below children \<noteq> None"
  using rec run
proof (induction children arbitrary: u forest u')
  case Nil
  show ?case by simp
next
  case (Cons c rest)
  have IH: "reachedFrom below rest \<noteq> None"
    if "forChildRoutes recurse rm prefix prp rest v = Some (Inr (nodes, v'))" for v nodes v'
  proof (rule Cons.IH [OF _ that])
    fix c' w f w'
    assume "c' \<in> set rest" "\<not> ri_index c'" "recurse (ri_id c') w = Some (Inr (f, w'))"
    then show "below (ri_id c') \<noteq> None" using Cons.prems(1) [of c' w f w'] by simp
  qed
  from Cons.prems(2) show ?case
  proof (cases rule: forChildRoutes_Inr_cases)
    case (1 u1 nodes)
    then show ?thesis using IH [OF 1(3)] by auto
  next
    case (2 u1 children u2 nodes)
    have "below (ri_id c) \<noteq> None" using Cons.prems(1) [of c u1 children u2] 2 by simp
    then show ?thesis using IH [OF 2(4)] 2(2) by auto
  qed
qed

lemma defineNestedRoutes_success_reached:
  "defineNestedRoutes depth rm prefix P u = Some (Inr (forest, u')) \<Longrightarrow> reached depth rm P \<noteq> None"
proof (induction depth arbitrary: P u forest u')
  case 0
  then show ?case by simp
next
  case (Suc depth)
  note e = defineNestedRoutes.simps(2) [of depth rm prefix P u, unfolded Let_def]
  show ?case
    unfolding reached.simps
    by (rule forChildRoutes_success_reached [OF _ Suc.prems [unfolded e]]) (rule Suc.IH)
qed

lemma forChildRoutes_top:
  "forChildRoutes recurse rm prefix prp children u = Some (Inr (forest, u')) \<Longrightarrow>
   map nodeSig forest = map (routeSig prefix) children"
proof (induction children arbitrary: u forest u')
  case Nil
  then show ?case by simp
next
  case (Cons c rest)
  from Cons.prems show ?case
  proof (cases rule: forChildRoutes_Inr_cases)
    case (1 u1 nodes)
    then show ?thesis using Cons.IH [OF 1(3)] by (simp add: nodeSig_def routeSig_def)
  next
    case (2 u1 children u2 nodes)
    then show ?thesis using Cons.IH [OF 2(4)] by (simp add: nodeSig_def routeSig_def)
  qed
qed

lemma reachedFrom_mem:
  "reachedFrom below children = Some vs \<Longrightarrow> x \<in> set vs \<Longrightarrow>
     x \<in> set children
     \<or> (\<exists>c \<in> set children. \<not> ri_index c \<and> (\<exists>sub. below (ri_id c) = Some sub \<and> x \<in> set sub))"
proof (induction children arbitrary: vs)
  case Nil
  then show ?case by simp
next
  case (Cons c rest)
  from Cons.prems(1) obtain sub vs' where
      sub: "(if ri_index c then Some [] else below (ri_id c)) = Some sub"
      and rest: "reachedFrom below rest = Some vs'" and vs: "vs = c # sub @ vs'"
    by (rule reachedFrom_Cons_Some)
  from Cons.prems(2) vs consider "x = c" | "x \<in> set sub" | "x \<in> set vs'" by auto
  then show ?case
  proof cases
    case 1
    then show ?thesis by simp
  next
    case 2
    then have "\<not> ri_index c" "below (ri_id c) = Some sub" using sub by (auto split: if_splits)
    with 2 show ?thesis by auto
  next
    case 3
    from Cons.IH [OF rest 3] show ?thesis by auto
  qed
qed

lemma reached_parent:
  "reached depth rm P = Some vs \<Longrightarrow> r \<in> set vs \<Longrightarrow>
     r \<in> set (map snd rm)
     \<and> (ri_parentId r = P
        \<or> (\<exists>c \<in> set (map snd rm). \<not> ri_index c \<and> ri_parentId r = Some (ri_id c)))"
proof (induction depth arbitrary: P vs r)
  case 0
  then show ?case by simp
next
  case (Suc depth)
  let ?children = "filter (\<lambda>routeInfo. ri_parentId routeInfo = P) (map snd rm)"
  from Suc.prems have "reachedFrom (\<lambda>childId. reached depth rm (Some childId)) ?children = Some vs"
    by simp
  from reachedFrom_mem [OF this Suc.prems(2)] show ?case
  proof
    assume "r \<in> set ?children"
    then show ?thesis by auto
  next
    assume "\<exists>c \<in> set ?children. \<not> ri_index c
              \<and> (\<exists>sub. reached depth rm (Some (ri_id c)) = Some sub \<and> r \<in> set sub)"
    then obtain c sub where c: "c \<in> set ?children" "\<not> ri_index c"
        and sub: "reached depth rm (Some (ri_id c)) = Some sub" "r \<in> set sub"
      by blast
    from Suc.IH [OF sub] c show ?thesis by auto
  qed
qed

lemma reached_chain:
  "reached depth rm P = Some vs \<Longrightarrow> parentChain cs P \<Longrightarrow> r \<in> set vs \<Longrightarrow>
     \<exists>ds. parentChain (ds @ cs) (ri_parentId r) \<and> set ds \<subseteq> set (map snd rm)"
proof (induction depth arbitrary: P vs r cs)
  case 0
  then show ?case by simp
next
  case (Suc depth)
  let ?children = "filter (\<lambda>routeInfo. ri_parentId routeInfo = P) (map snd rm)"
  from Suc.prems have "reachedFrom (\<lambda>childId. reached depth rm (Some childId)) ?children = Some vs"
    by simp
  from reachedFrom_mem [OF this Suc.prems(3)] show ?case
  proof
    assume "r \<in> set ?children"
    then have "parentChain ([] @ cs) (ri_parentId r)" using Suc.prems(2) by simp
    then show ?thesis by (intro exI [of _ "[]"]) simp
  next
    assume "\<exists>c \<in> set ?children. \<not> ri_index c
              \<and> (\<exists>sub. reached depth rm (Some (ri_id c)) = Some sub \<and> r \<in> set sub)"
    then obtain c sub where c: "c \<in> set ?children"
        and sub: "reached depth rm (Some (ri_id c)) = Some sub" "r \<in> set sub"
      by blast
    have "parentChain (c # cs) (Some (ri_id c))" using c Suc.prems(2) by simp
    from Suc.IH [OF sub(1) this sub(2)] obtain ds where
        ds: "parentChain (ds @ c # cs) (ri_parentId r)" "set ds \<subseteq> set (map snd rm)"
      by blast
    then have "parentChain ((ds @ [c]) @ cs) (ri_parentId r) \<and> set (ds @ [c]) \<subseteq> set (map snd rm)"
      using c by simp
    then show ?thesis by blast
  qed
qed

lemma parentChain_unique:
  assumes inj: "inj_on ri_id R"
  shows "set xs \<subseteq> R \<Longrightarrow> set ys \<subseteq> R \<Longrightarrow> parentChain xs Q \<Longrightarrow> parentChain ys Q \<Longrightarrow> xs = ys"
proof (induction xs arbitrary: ys Q)
  case Nil
  then show ?case by (cases ys) simp_all
next
  case (Cons x xs)
  from Cons.prems(3,4) obtain y ys' where ys: "ys = y # ys'" by (cases ys) auto
  with Cons.prems have "ri_id x = ri_id y" "x \<in> R" "y \<in> R" by auto
  then have xy: "x = y" using inj by (blast dest: inj_onD)
  have "xs = ys'"
    by (rule Cons.IH [of ys' "ri_parentId x"]) (use Cons.prems ys xy in auto)
  with xy ys show ?case by simp
qed

lemma reachedFrom_distinct:
  assumes inj: "inj_on ri_id R"
    and cs: "set cs \<subseteq> R"
    and ch: "\<And>c. c \<in> set children \<Longrightarrow> c \<in> R \<and> parentChain cs (ri_parentId c)"
    and sub: "\<And>c sub. c \<in> set children \<Longrightarrow> \<not> ri_index c \<Longrightarrow> below (ri_id c) = Some sub \<Longrightarrow>
                distinct sub \<and> set sub \<subseteq> R
                \<and> (\<forall>x \<in> set sub. \<exists>ds. parentChain (ds @ c # cs) (ri_parentId x) \<and> set ds \<subseteq> R)"
    and d: "distinct children"
    and reach: "reachedFrom below children = Some vs"
  shows "distinct vs"
  using ch sub d reach
proof (induction children arbitrary: vs)
  case Nil
  then show ?case by simp
next
  case (Cons c rest)
  from Cons.prems(4) obtain sb vs' where
      sb: "(if ri_index c then Some [] else below (ri_id c)) = Some sb"
      and rest: "reachedFrom below rest = Some vs'" and vs: "vs = c # sb @ vs'"
    by (rule reachedFrom_Cons_Some)
  have c: "c \<in> R" "parentChain cs (ri_parentId c)" using Cons.prems(1) [of c] by simp_all
  have under: "distinct sub \<and> set sub \<subseteq> R
        \<and> (\<forall>x \<in> set sub. \<exists>ds. parentChain (ds @ c' # cs) (ri_parentId x) \<and> set ds \<subseteq> R)"
    if "c' \<in> set (c # rest)" "\<not> ri_index c'" "below (ri_id c') = Some sub" for c' sub
    using Cons.prems(2) [OF that] .
  have sbP: "distinct sb \<and> set sb \<subseteq> R
        \<and> (\<forall>x \<in> set sb. \<exists>ds. parentChain (ds @ c # cs) (ri_parentId x) \<and> set ds \<subseteq> R)"
  proof (cases "ri_index c")
    case True
    then show ?thesis using sb by simp
  next
    case False
    then show ?thesis using under [of c sb] sb by simp
  qed
  have dvs': "distinct vs'"
  proof (rule Cons.IH [OF _ _ _ rest])
    show "c' \<in> R \<and> parentChain cs (ri_parentId c')" if "c' \<in> set rest" for c'
      using Cons.prems(1) [of c'] that by simp
    show "distinct sub \<and> set sub \<subseteq> R
        \<and> (\<forall>x \<in> set sub. \<exists>ds. parentChain (ds @ c' # cs) (ri_parentId x) \<and> set ds \<subseteq> R)"
      if "c' \<in> set rest" "\<not> ri_index c'" "below (ri_id c') = Some sub" for c' sub
      using under [of c' sub] that by simp
    show "distinct rest" using Cons.prems(3) by simp
  qed
  \<comment> \<open>the chain above a route is unique, so its length tells children from what is below them\<close>
  have noChild: False
    if "parentChain cs (ri_parentId x)" "parentChain (ds @ c' # cs) (ri_parentId x)"
       "set ds \<subseteq> R" "c' \<in> R" for x ds c'
  proof -
    have "cs = ds @ c' # cs"
      by (rule parentChain_unique [OF inj _ _ that(1,2)]) (use cs that(3,4) in auto)
    then have "length cs = length (ds @ c' # cs)" by simp
    then show False by simp
  qed
  have sameTop: "c1 = c2"
    if "parentChain (ds1 @ c1 # cs) (ri_parentId x)" "parentChain (ds2 @ c2 # cs) (ri_parentId x)"
       "set ds1 \<subseteq> R" "set ds2 \<subseteq> R" "c1 \<in> R" "c2 \<in> R" for x ds1 ds2 c1 c2
  proof -
    have "ds1 @ c1 # cs = ds2 @ c2 # cs"
      by (rule parentChain_unique [OF inj _ _ that(1,2)]) (use cs that(3-6) in auto)
    then have "(ds1 @ [c1]) @ cs = (ds2 @ [c2]) @ cs" by simp
    then have "ds1 @ [c1] = ds2 @ [c2]" by (simp only: append_same_eq)
    then show ?thesis by simp
  qed
  have inRest: "x \<in> set rest \<and> parentChain cs (ri_parentId x)
        \<or> (\<exists>c' \<in> set rest. c' \<in> R
              \<and> (\<exists>ds. parentChain (ds @ c' # cs) (ri_parentId x) \<and> set ds \<subseteq> R))"
    if "x \<in> set vs'" for x
    using reachedFrom_mem [OF rest that]
  proof
    assume "x \<in> set rest"
    then show ?thesis using Cons.prems(1) [of x] by simp
  next
    assume "\<exists>c' \<in> set rest. \<not> ri_index c' \<and> (\<exists>sub. below (ri_id c') = Some sub \<and> x \<in> set sub)"
    then obtain c' sub where c': "c' \<in> set rest" "\<not> ri_index c'" "below (ri_id c') = Some sub"
        "x \<in> set sub"
      by blast
    from under [of c' sub] c' have
        "\<exists>ds. parentChain (ds @ c' # cs) (ri_parentId x) \<and> set ds \<subseteq> R"
      by simp
    moreover have "c' \<in> R" using Cons.prems(1) [of c'] c'(1) by simp
    ultimately show ?thesis using c'(1) by blast
  qed
  have c_sb: "c \<notin> set sb"
  proof
    assume "c \<in> set sb"
    with sbP obtain ds where "parentChain (ds @ c # cs) (ri_parentId c)" "set ds \<subseteq> R" by blast
    with noChild [OF c(2) this(1) this(2) c(1)] show False by simp
  qed
  have c_vs': "c \<notin> set vs'"
  proof
    assume "c \<in> set vs'"
    from inRest [OF this] show False
    proof
      assume "c \<in> set rest \<and> parentChain cs (ri_parentId c)"
      then show False using Cons.prems(3) by simp
    next
      assume "\<exists>c' \<in> set rest. c' \<in> R
                \<and> (\<exists>ds. parentChain (ds @ c' # cs) (ri_parentId c) \<and> set ds \<subseteq> R)"
      then obtain c' ds where "c' \<in> R" "parentChain (ds @ c' # cs) (ri_parentId c)" "set ds \<subseteq> R"
        by blast
      with noChild [OF c(2) this(2) this(3) this(1)] show False by simp
    qed
  qed
  have sb_vs': "set sb \<inter> set vs' = {}"
  proof (rule ccontr)
    assume "set sb \<inter> set vs' \<noteq> {}"
    then obtain x where x: "x \<in> set sb" "x \<in> set vs'" by blast
    from sbP x(1) obtain ds where ds: "parentChain (ds @ c # cs) (ri_parentId x)" "set ds \<subseteq> R"
      by blast
    from inRest [OF x(2)] show False
    proof
      assume "x \<in> set rest \<and> parentChain cs (ri_parentId x)"
      then show False using noChild [OF _ ds c(1)] by simp
    next
      assume "\<exists>c' \<in> set rest. c' \<in> R
                \<and> (\<exists>ds. parentChain (ds @ c' # cs) (ri_parentId x) \<and> set ds \<subseteq> R)"
      then obtain c' ds' where c': "c' \<in> set rest" "c' \<in> R"
          "parentChain (ds' @ c' # cs) (ri_parentId x)" "set ds' \<subseteq> R"
        by blast
      have "c = c'" by (rule sameTop [OF ds(1) c'(3) ds(2) c'(4) c(1) c'(2)])
      then show False using c'(1) Cons.prems(3) by simp
    qed
  qed
  show ?case using sbP dvs' c_sb c_vs' sb_vs' by (simp add: vs)
qed

lemma reached_distinct:
  assumes inj: "inj_on ri_id (set (map snd rm))" and d: "distinct (map snd rm)"
  shows "set cs \<subseteq> set (map snd rm) \<Longrightarrow> parentChain cs P \<Longrightarrow> reached depth rm P = Some vs \<Longrightarrow>
         distinct vs"
proof (induction depth arbitrary: cs P vs)
  case 0
  then show ?case by simp
next
  case (Suc depth)
  let ?children = "filter (\<lambda>routeInfo. ri_parentId routeInfo = P) (map snd rm)"
  let ?below = "\<lambda>childId. reached depth rm (Some childId)"
  have reach: "reachedFrom ?below ?children = Some vs" using Suc.prems(3) by simp
  show ?case
  proof (rule reachedFrom_distinct [OF inj Suc.prems(1) _ _ _ reach])
    show "c \<in> set (map snd rm) \<and> parentChain cs (ri_parentId c)" if "c \<in> set ?children" for c
      using that Suc.prems(2) by auto
    show "distinct ?children" using d by simp
    show "distinct sub \<and> set sub \<subseteq> set (map snd rm)
        \<and> (\<forall>x \<in> set sub. \<exists>ds. parentChain (ds @ c # cs) (ri_parentId x)
                                \<and> set ds \<subseteq> set (map snd rm))"
      if "c \<in> set ?children" "\<not> ri_index c" "?below (ri_id c) = Some sub" for c sub
    proof -
      have c: "c \<in> set (map snd rm)" "parentChain (c # cs) (Some (ri_id c))"
        using that(1) Suc.prems(2) by auto
      have "distinct sub"
        by (rule Suc.IH [OF _ c(2) that(3)]) (use c(1) Suc.prems(1) in simp)
      moreover have "set sub \<subseteq> set (map snd rm)"
        using reached_parent [OF that(3)] by blast
      moreover have "\<forall>x \<in> set sub. \<exists>ds. parentChain (ds @ c # cs) (ri_parentId x)
                                \<and> set ds \<subseteq> set (map snd rm)"
        using reached_chain [OF that(3) c(2)] by blast
      ultimately show ?thesis by blast
    qed
  qed
qed

lemma unique_ids:
  assumes "distinct (map (ri_id \<circ> snd) rm)"
  shows "inj_on ri_id (set (map snd rm))" "distinct (map snd rm)"
  using assms by (simp_all add: distinct_map flip: map_map)

lemma reachedFrom_returns:
  "(\<And>c. c \<in> set children \<Longrightarrow> below (ri_id c) \<noteq> None) \<Longrightarrow> reachedFrom below children \<noteq> None"
proof (induction children)
  case Nil
  show ?case by simp
next
  case (Cons c rest)
  have "below (ri_id c) \<noteq> None" using Cons.prems [of c] by simp
  moreover have "reachedFrom below rest \<noteq> None" using Cons.IH Cons.prems by simp
  ultimately show ?case by (auto split: option.splits)
qed

lemma reached_returns_chain:
  assumes inj: "inj_on ri_id (set (map snd rm))"
  shows "set cs \<subseteq> set (map snd rm) \<Longrightarrow> distinct cs \<Longrightarrow> parentChain cs P \<Longrightarrow>
         length rm < length cs + depth \<Longrightarrow> reached depth rm P \<noteq> None"
proof (induction depth arbitrary: cs P)
  case 0
  have "length cs = card (set cs)" using 0(2) by (simp add: distinct_card)
  also have "\<dots> \<le> card (set (map snd rm))" using 0(1) by (intro card_mono) simp_all
  also have "\<dots> \<le> length rm" using card_length [of "map snd rm"] by simp
  finally show ?case using 0(4) by simp
next
  case (Suc depth)
  let ?children = "filter (\<lambda>routeInfo. ri_parentId routeInfo = P) (map snd rm)"
  have rec: "reached depth rm (Some (ri_id c)) \<noteq> None" if "c \<in> set ?children" for c
  proof (rule Suc.IH [of "c # cs"])
    have c: "c \<in> set (map snd rm)" "ri_parentId c = P" using that by auto
    show "set (c # cs) \<subseteq> set (map snd rm)" using c Suc.prems(1) by simp
    show "distinct (c # cs)"
      using parentChain_fresh [OF inj Suc.prems(1,2,3) c] Suc.prems(2) by simp
    show "parentChain (c # cs) (Some (ri_id c))" using c Suc.prems(3) by simp
    show "length rm < length (c # cs) + depth" using Suc.prems(4) by simp
  qed
  show ?case
    unfolding reached.simps by (rule reachedFrom_returns) (rule rec)
qed

lemma reached_returns:
  assumes "distinct (map (ri_id \<circ> snd) rm)"
  shows "reached (Suc (length rm)) rm None \<noteq> None"
  by (rule reached_returns_chain [OF unique_ids(1) [OF assms], of "[]"]) simp_all

lemma under_index_not_reached:
  assumes d: "distinct (map (ri_id \<circ> snd) rm)"
    and reach: "reached depth rm None = Some vs"
    and q: "q \<in> set (map snd rm)" "ri_index q" and r: "ri_parentId r = Some (ri_id q)"
  shows "r \<notin> set vs"
proof
  assume "r \<in> set vs"
  from reached_parent [OF reach this] r obtain c where
      c: "c \<in> set (map snd rm)" "\<not> ri_index c" "ri_id q = ri_id c"
    by auto
  then have "c = q" using unique_ids(1) [OF d] q(1) by (blast dest: inj_onD)
  with c(2) q(2) show False by blast
qed

lemma keysOf_simps:
  "keysOf [] = []"
  "keysOf (r # rs) = (if uniqueRouteId r \<noteq> [] then uniqueRouteId r # keysOf rs else keysOf rs)"
  "keysOf (xs @ ys) = keysOf xs @ keysOf ys"
  by (simp_all add: keysOf_def)

lemma keysOf_set: "set (keysOf rs) = {k. k \<noteq> [] \<and> (\<exists>r \<in> set rs. uniqueRouteId r = k)}"
  by (auto simp: keysOf_def)

lemma registerAll_outcome:
  assumes "represents u seen" "distinct (keysOf seen)"
    and "\<forall>r \<in> set (seen @ vs). uniqueRouteId r \<noteq> [] \<longrightarrow> ri_id r \<noteq> []"
  shows "(distinct (keysOf (seen @ vs)) \<longrightarrow> (\<exists>u'. registerAll u vs = Inr u'))
    \<and> (\<not> distinct (keysOf (seen @ vs)) \<longrightarrow>
         (\<exists>pre r post r'. vs = pre @ r # post \<and> r' \<in> set (seen @ pre)
            \<and> uniqueRouteId r = uniqueRouteId r' \<and> uniqueRouteId r \<noteq> []
            \<and> registerAll u vs = Inl (RouteConflict (ri_path r) (ri_id r) (ri_id r'))))"
  using assms
proof (induction vs arbitrary: u seen)
  case Nil
  then show ?case by simp
next
  case (Cons r rs)
  note rep = Cons.prems(1) and dseen = Cons.prems(2) and ids = Cons.prems(3)
  have ids': "\<forall>x \<in> set ((seen @ [r]) @ rs). uniqueRouteId x \<noteq> [] \<longrightarrow> ri_id x \<noteq> []"
    using ids by simp
  have lift: ?case
    if reg: "registerUnique u r = Inr u1" and rep1: "represents u1 (seen @ [r])"
      and d1: "distinct (keysOf (seen @ [r]))" for u1
  proof -
    note IH = Cons.IH [OF rep1 d1 ids']
    have ra: "registerAll u (r # rs) = registerAll u1 rs" using reg by simp
    have app: "(seen @ [r]) @ rs = seen @ r # rs" by simp
    show ?thesis
    proof (intro conjI impI)
      assume "distinct (keysOf (seen @ r # rs))"
      then show "\<exists>u'. registerAll u (r # rs) = Inr u'" using IH ra app by metis
    next
      assume "\<not> distinct (keysOf (seen @ r # rs))"
      then obtain pre x post r' where x: "rs = pre @ x # post" "r' \<in> set ((seen @ [r]) @ pre)"
          "uniqueRouteId x = uniqueRouteId r'" "uniqueRouteId x \<noteq> []"
          "registerAll u1 rs = Inl (RouteConflict (ri_path x) (ri_id x) (ri_id r'))"
        using IH app by metis
      have "r # rs = (r # pre) @ x # post" "r' \<in> set (seen @ r # pre)"
        using x(1,2) by simp_all
      then show "\<exists>pre x post r'. r # rs = pre @ x # post \<and> r' \<in> set (seen @ pre)
            \<and> uniqueRouteId x = uniqueRouteId r' \<and> uniqueRouteId x \<noteq> []
            \<and> registerAll u (r # rs) = Inl (RouteConflict (ri_path x) (ri_id x) (ri_id r'))"
        using x(3,4,5) ra by metis
    qed
  qed
  show ?case
  proof (cases "uniqueRouteId r = []")
    case True
    have "registerUnique u r = Inr u" using True by (simp add: registerUnique_def)
    moreover have "represents u (seen @ [r])"
      using rep True unfolding represents_def by auto
    moreover have "distinct (keysOf (seen @ [r]))"
      using dseen True by (simp add: keysOf_simps)
    ultimately show ?thesis by (rule lift)
  next
    case False
    show ?thesis
    proof (cases "\<exists>r' \<in> set seen. uniqueRouteId r' = uniqueRouteId r")
      case True
      then obtain r' where r': "r' \<in> set seen" "uniqueRouteId r' = uniqueRouteId r" by blast
      then have "u (uniqueRouteId r) = Some (ri_id r')"
        using rep False unfolding represents_def by metis
      moreover have "ri_id r' \<noteq> []" using ids r' False by simp
      ultimately have reg: "registerUnique u r = Inl (RouteConflict (ri_path r) (ri_id r) (ri_id r'))"
        using False by (simp add: registerUnique_def)
      have nd: "\<not> distinct (keysOf (seen @ r # rs))"
        using r' False by (auto simp: keysOf_simps keysOf_set)
      have "r # rs = [] @ r # rs \<and> r' \<in> set (seen @ [])
            \<and> uniqueRouteId r = uniqueRouteId r' \<and> uniqueRouteId r \<noteq> []
            \<and> registerAll u (r # rs) = Inl (RouteConflict (ri_path r) (ri_id r) (ri_id r'))"
        using r' False reg by simp
      then show ?thesis using nd by blast
    next
      case none: False
      have "u (uniqueRouteId r) = None"
      proof (cases "u (uniqueRouteId r)")
        case None then show ?thesis .
      next
        case (Some v)
        then show ?thesis using rep none unfolding represents_def by metis
      qed
      then have "registerUnique u r = Inr (u(uniqueRouteId r \<mapsto> ri_id r))"
        using False by (simp add: registerUnique_def)
      moreover have "represents (u(uniqueRouteId r \<mapsto> ri_id r)) (seen @ [r])"
        using rep none False unfolding represents_def by auto
      moreover have "distinct (keysOf (seen @ [r]))"
        using dseen none False by (auto simp: keysOf_simps keysOf_set)
      ultimately show ?thesis by (rule lift)
    qed
  qed
qed

lemma keysOf_distinct_iff:
  assumes "distinct vs"
  shows "distinct (keysOf vs) \<longleftrightarrow>
         (\<forall>r \<in> set vs. \<forall>r' \<in> set vs. uniqueRouteId r = uniqueRouteId r' \<and> uniqueRouteId r \<noteq> []
            \<longrightarrow> r = r')"
proof -
  have eq: "keysOf vs = map uniqueRouteId (filter (\<lambda>r. uniqueRouteId r \<noteq> []) vs)"
    by (simp add: keysOf_def filter_map comp_def)
  have "distinct (keysOf vs) \<longleftrightarrow> inj_on uniqueRouteId {r \<in> set vs. uniqueRouteId r \<noteq> []}"
    unfolding eq using assms by (simp add: distinct_map)
  also have "\<dots> \<longleftrightarrow> (\<forall>r \<in> set vs. \<forall>r' \<in> set vs.
        uniqueRouteId r = uniqueRouteId r' \<and> uniqueRouteId r \<noteq> [] \<longrightarrow> r = r')"
    unfolding inj_on_def by auto
  finally show ?thesis .
qed

subsection \<open>Route map lemmas\<close>

lemma Map_set_entries: "set (Map_set m k v) \<subseteq> insert (k, v) (set m)"
  by (induction m) (auto split: if_splits)

lemma Map_set_map_fst:
  "map fst (Map_set m k v) = (if k \<in> set (map fst m) then map fst m else map fst m @ [k])"
  by (induction m) force+

lemma Map_set_keys: "fst ` set (Map_set m k v) = insert k (fst ` set m)"
proof -
  have "set (map fst (Map_set m k v)) = insert k (set (map fst m))"
    unfolding Map_set_map_fst by auto
  then show ?thesis by simp
qed

lemma getRouteInfo_from_Inr:
  assumes "getRouteInfo_from fp routeId = Inr ri"
  shows "ri_id ri = routeId" "getRouteSegments routeId = Inr (ri_segments ri)"
    "ri_name ri = join (ri_segments ri) ''/''"
  using assms by (auto simp: getRouteInfo_from_def Let_def split: sum.splits)

lemma getRouteMap_loop_collectedOK:
  "getRouteMap_loop files rm nm = Inr (rm', nm') \<Longrightarrow> collectedOK rm nm \<Longrightarrow> collectedOK rm' nm'"
proof (induction files arbitrary: rm nm)
  case Nil
  then show ?case by simp
next
  case (Cons f files)
  obtain fp routeId where f: "f = (fp, routeId)" by (cases f)
  from Cons.prems(1) obtain ri where ri: "getRouteInfo_from fp routeId = Inr ri"
      and loop: "getRouteMap_loop files (Map_set rm (ri_id ri) ri) (nm(ri_name ri \<mapsto> ri))
                   = Inr (rm', nm')"
    unfolding f by (auto split: sum.splits)
  note info = getRouteInfo_from_Inr [OF ri]
  have "collectedOK (Map_set rm (ri_id ri) ri) (nm(ri_name ri \<mapsto> ri))"
    unfolding collectedOK_def
  proof (intro conjI ballI allI impI)
    fix e assume e: "e \<in> set (Map_set rm (ri_id ri) ri)"
    then have "e = (ri_id ri, ri) \<or> e \<in> set rm" using Map_set_entries by fastforce
    then show "case e of (k, r) \<Rightarrow> k = ri_id r \<and> getRouteSegments (ri_id r) = Inr (ri_segments r)
          \<and> ri_name r = join (ri_segments r) ''/'' \<and> ri_name r \<in> dom (nm(ri_name ri \<mapsto> ri))"
      using info Cons.prems(2) unfolding collectedOK_def by auto
  next
    fix n r0 assume n: "(nm(ri_name ri \<mapsto> ri)) n = Some r0"
    show "ri_name r0 = n"
      using n Cons.prems(2) unfolding collectedOK_def by (auto split: if_splits)
    show "ri_id r0 \<in> fst ` set (Map_set rm (ri_id ri) ri)"
      unfolding Map_set_keys
      using n Cons.prems(2) unfolding collectedOK_def by (auto split: if_splits)
  qed
  from Cons.IH [OF loop this] show ?case .
qed

lemma flatRoutesUniversal_top:
  assumes "flatRoutesUniversal depth rm prefix = Some (Inr forest)"
  shows "map nodeSig forest
         = map (routeSig prefix) (filter (\<lambda>r. ri_parentId r = None) (map snd rm))"
proof -
  obtain u' where run: "defineNestedRoutes depth rm prefix None Map.empty = Some (Inr (forest, u'))"
    using assms by (auto simp: flatRoutesUniversal_def split: option.splits sum.splits)
  then obtain d where d: "depth = Suc d" by (cases depth) simp_all
  note e = defineNestedRoutes.simps(2) [of d rm prefix None Map.empty, unfolded Let_def]
  show ?thesis
    by (rule forChildRoutes_top [OF run [unfolded d e]])
qed

subsection \<open>Path builder and index detection\<close>

lemma createRoutePath_loop_eq:
  "createRoutePath_loop segs acc =
     acc @ concat (map (\<lambda>s. ''/'' @ (if endsWith s ''_'' then butlast s else s))
                       (filter (\<lambda>s. \<not> startsWith s ''_'') segs))"
  by (induction segs arbitrary: acc) (simp_all add: Let_def)

text \<open>
  C3 (as amended). \<open>isIndexRoute("routes/_index")\<close> is false: the id has a separator, so the
  regular expression decides, and in it \<open>_index\<close> must follow the start of the id, a dot or
  \<open>+/\<close>, or be enclosed in slashes. The flat id \<open>_index\<close> (what the route-info extractor
  passes for \<open>routes/_index.tsx\<close>) is an index route, and \<open>routes/about\<close> is not.
\<close>

theorem isIndexRoute_examples:
  "isIndexRoute ''routes/_index'' = False \<and> isIndexRoute ''_index'' = True
   \<and> isIndexRoute ''routes/about'' = False"
  by code_simp

text \<open>C3 as stated fails: \<open>isIndexRoute("routes/_index")\<close> does not return true.\<close>

theorem isIndexRoute_routes_index_counterexample:
  "\<not> (isIndexRoute ''routes/_index'' = True \<and> isIndexRoute ''routes/about'' = False)"
  by code_simp

text \<open>
  C6 (as amended). \<open>createRoutePath(["users","$id"], false)\<close> returns \<open>/users/$id\<close>: the path
  builder copies the segment; the rewrite of the param prefix is the tokenizer's, and on the
  tokenizer's segment \<open>:id\<close> the path builder returns \<open>/users/:id\<close>.
\<close>

theorem createRoutePath_users_id:
  "createRoutePath [''users'', ''$id''] False = Some ''/users/$id''
   \<and> createRoutePath [''users'', '':id''] False = Some ''/users/:id''"
  by (simp add: createRoutePath_def startsWith_def endsWith_def)

text \<open>C6 as stated fails: the result for \<open>["users","$id"]\<close> is not \<open>/users/:id\<close>.\<close>

theorem createRoutePath_users_id_counterexample:
  "createRoutePath [''users'', ''$id''] False \<noteq> Some ''/users/:id''"
  by (simp add: createRoutePath_def startsWith_def endsWith_def)

text \<open>
  C7. For every segment list and index flag, \<open>createRoutePath\<close> drops the last segment when
  the index flag is set, skips the segments that start with \<open>_\<close>, strips one trailing \<open>_\<close>
  from those that end with it, prefixes each remaining segment with \<open>/\<close> and concatenates
  them in order; it returns \<open>undefined\<close> exactly when no segment remains. In particular
  \<open>createRoutePath(["_auth","login"], false)\<close> is \<open>/login\<close>.
\<close>

theorem createRoutePath_spec:
  "createRoutePath segs isIndex = spec_routePath segs isIndex
   \<and> createRoutePath [''_auth'', ''login''] False = Some ''/login''"
proof
  let ?kept = "filter (\<lambda>s. \<not> startsWith s ''_'') (if isIndex then butlast segs else segs)"
  let ?parts = "map (\<lambda>s. ''/'' @ (if endsWith s ''_'' then butlast s else s)) ?kept"
  have "concat ?parts = [] \<longleftrightarrow> ?kept = []"
    by (cases ?kept) simp_all
  then show "createRoutePath segs isIndex = spec_routePath segs isIndex"
    unfolding createRoutePath_def spec_routePath_def Let_def createRoutePath_loop_eq
    by simp
  show "createRoutePath [''_auth'', ''login''] False = Some ''/login''"
    by (simp add: createRoutePath_def startsWith_def endsWith_def)
qed

theorem createRoutePath_spec_witness:
  "createRoutePath [''a'', ''_b'', ''c_'', ''_index''] True = Some ''/a/c''
   \<and> createRoutePath [''_index''] True = None"
  using createRoutePath_spec [of "[''a'', ''_b'', ''c_'', ''_index'']" True]
        createRoutePath_spec [of "[''_index'']" True]
  by (simp add: spec_routePath_def startsWith_def endsWith_def)

text \<open>
  C4 (as amended). \<open>getRouteSegments\<close> throws the unsupported-character error if and only if
  some non-empty segment handed to \<open>pushRouteSegment\<close> has a raw text containing \<open>*\<close>, \<open>:\<close>
  or \<open>/\<close>. The raw text holds every character accumulated into the segment, those written
  between \<open>[\<close> and \<open>]\<close> included, so escaping does not exempt a reserved character: any \<open>*\<close>
  or \<open>:\<close> in the id that is tokenized makes the tokenizer fail.
\<close>

theorem getRouteSegments_fails_iff:
  "(isl (getRouteSegments s) \<longleftrightarrow>
     (\<exists>(seg, raw) \<in> set (flushes (stripFolderMarker s) NORMAL [] []).
        seg \<noteq> [] \<and> (CHR ''*'' \<in> set raw \<or> CHR '':'' \<in> set raw \<or> CHR ''/'' \<in> set raw)))
   \<and> (CHR ''*'' \<in> set (stripFolderMarker s) \<or> CHR '':'' \<in> set (stripFolderMarker s)
        \<longrightarrow> isl (getRouteSegments s))"
proof
  show iff: "isl (getRouteSegments s) \<longleftrightarrow>
     (\<exists>(seg, raw) \<in> set (flushes (stripFolderMarker s) NORMAL [] []).
        seg \<noteq> [] \<and> (CHR ''*'' \<in> set raw \<or> CHR '':'' \<in> set raw \<or> CHR ''/'' \<in> set raw))"
    by (simp add: getRouteSegments_tokenize tokenize_flushes pushAll_isl rejected_def
        case_prod_beta)
  have star: "\<exists>p \<in> set (flushes cs NORMAL [] []). fst p \<noteq> [] \<and> CHR ''*'' \<in> set (snd p)"
    if "CHR ''*'' \<in> set cs" for cs
    by (rule input_char_flushed[OF _ _ _ _ _ _ that])
       (simp_all add: isSegmentSeparator_def escapeStart_def escapeEnd_def optionalStart_def
          optionalEnd_def paramPrefixChar_def)
  have colon: "\<exists>p \<in> set (flushes cs NORMAL [] []). fst p \<noteq> [] \<and> CHR '':'' \<in> set (snd p)"
    if "CHR '':'' \<in> set cs" for cs
    by (rule input_char_flushed[OF _ _ _ _ _ _ that])
       (simp_all add: isSegmentSeparator_def escapeStart_def escapeEnd_def optionalStart_def
          optionalEnd_def paramPrefixChar_def)
  show "CHR ''*'' \<in> set (stripFolderMarker s) \<or> CHR '':'' \<in> set (stripFolderMarker s)
        \<longrightarrow> isl (getRouteSegments s)"
    unfolding iff using star colon by (fastforce simp: case_prod_beta)
qed

theorem getRouteSegments_fails_iff_witness:
  "isl (getRouteSegments ''a.[*]'') \<and> \<not> isl (getRouteSegments ''a.[b]'')"
  using getRouteSegments_fails_iff [of "''a.[*]''"] getRouteSegments_fails_iff [of "''a.[b]''"]
  by (simp add: stripFolderMarker_def str_includes_def endsWith_def isSegmentSeparator_def
      escapeStart_def escapeEnd_def optionalStart_def optionalEnd_def paramPrefixChar_def)

text \<open>
  C4 as stated fails: a reserved character written between the escape delimiters makes the
  tokenizer throw.
\<close>

theorem getRouteSegments_escaped_star_counterexample:
  "getRouteSegments ''[*]'' = Inl (NotSupportedInRR ''*'' ''[*]'' CHR ''*'')"
  by code_simp

text \<open>
  C5. When the loop reads the param prefix \<open>$\<close> in state NORMAL or OPTIONAL with an empty
  \<open>routeSegment\<close> (the start of a fresh segment), the segment becomes \<open>*\<close> if no character
  of the route id is left, and \<open>:\<close> otherwise, the state is unchanged and the loop goes on
  appending; with a non-empty \<open>routeSegment\<close> the \<open>$\<close> is appended as it is. The route id is
  the one the loop scans, after a trailing folder marker was cut off.
\<close>

theorem paramPrefix_rewrite:
  "st = NORMAL \<or> st = OPTIONAL \<Longrightarrow>
     getRouteSegments_loop rid (CHR ''$'' # rest) st [] raw segs =
       getRouteSegments_loop rid rest st (if rest = [] then ''*'' else '':'') (raw @ ''$'') segs
     \<and> (seg \<noteq> [] \<longrightarrow>
          getRouteSegments_loop rid (CHR ''$'' # rest) st seg raw segs =
            getRouteSegments_loop rid rest st (seg @ ''$'') (raw @ ''$'') segs)"
  by (auto simp: isSegmentSeparator_def escapeStart_def optionalStart_def optionalEnd_def
      paramPrefixChar_def)

theorem paramPrefix_rewrite_witness:
  "getRouteSegments_loop ''a.$'' ''$'' NORMAL [] [] [''a''] = Inr (NORMAL, ''*'', ''$'', [''a''])
   \<and> getRouteSegments_loop ''($id'' ''$id'' OPTIONAL [] [] [] = Inr (OPTIONAL, '':id'', ''$id'', [])
   \<and> getRouteSegments_loop ''a$'' ''$'' NORMAL ''a'' ''a'' [] = Inr (NORMAL, ''a$'', ''a$'', [])
   \<and> getRouteSegments ''a.$'' = Inr [''a'', ''*'']
   \<and> getRouteSegments ''$lang.$ref'' = Inr ['':lang'', '':ref'']
   \<and> getRouteSegments ''a$b.($c)'' = Inr [''a$b'', '':c?'']"
proof -
  have 1: "getRouteSegments_loop ''a.$'' ''$'' NORMAL [] [] [''a'']
           = Inr (NORMAL, ''*'', ''$'', [''a''])"
    using paramPrefix_rewrite [where st = NORMAL and rid = "''a.$''" and rest = "[]"
        and raw = "[]" and segs = "[''a'']"] by simp
  have 2: "getRouteSegments_loop ''($id'' ''$id'' OPTIONAL [] [] []
           = Inr (OPTIONAL, '':id'', ''$id'', [])"
    using paramPrefix_rewrite [where st = OPTIONAL and rid = "''($id''" and rest = "''id''"
        and raw = "[]" and segs = "[]"]
    by (simp add: isSegmentSeparator_def escapeStart_def optionalStart_def optionalEnd_def
        paramPrefixChar_def)
  have 3: "getRouteSegments_loop ''a$'' ''$'' NORMAL ''a'' ''a'' [] = Inr (NORMAL, ''a$'', ''a$'', [])"
    using paramPrefix_rewrite [where st = NORMAL and rid = "''a$''" and rest = "[]"
        and raw = "''a''" and segs = "[]" and seg = "''a''"] by simp
  have 4: "getRouteSegments ''a.$'' = Inr [''a'', ''*'']" by code_simp
  have 5: "getRouteSegments ''$lang.$ref'' = Inr ['':lang'', '':ref'']" by code_simp
  have 6: "getRouteSegments ''a$b.($c)'' = Inr [''a$b'', '':c?'']" by code_simp
  from 1 2 3 4 5 6 show ?thesis by blast
qed

text \<open>
  C9. Whatever state the loop is in when the input ends (ESCAPE, OPTIONAL and
  OPTIONAL_ESCAPE included), \<open>getRouteSegments\<close> hands the segment accumulated so far to
  \<open>pushRouteSegment\<close>: an empty segment adds nothing, a non-empty one is appended as the
  last segment, and the only failure is the reserved-character check on its raw text; no
  error is raised for the unterminated escape or optional syntax.
\<close>

theorem end_of_input_flush:
  "getRouteSegments_loop (stripFolderMarker s) (stripFolderMarker s) NORMAL [] [] []
     = Inr (st, seg, raw, segs) \<Longrightarrow>
   st \<in> {ESCAPE, OPTIONAL, OPTIONAL_ESCAPE} \<Longrightarrow>
     (seg = [] \<longrightarrow> getRouteSegments s = Inr segs)
     \<and> (seg \<noteq> [] \<and> CHR ''*'' \<notin> set raw \<and> CHR '':'' \<notin> set raw \<and> CHR ''/'' \<notin> set raw
          \<longrightarrow> getRouteSegments s = Inr (segs @ [seg]))
     \<and> (isl (getRouteSegments s) \<longrightarrow>
          seg \<noteq> [] \<and> (CHR ''*'' \<in> set raw \<or> CHR '':'' \<in> set raw \<or> CHR ''/'' \<in> set raw))"
  by (auto simp: getRouteSegments_def Let_def pushRouteSegment_def str_includes_def)

theorem end_of_input_flush_witness:
  "getRouteSegments ''a.[b'' = Inr [''a'', ''b'']
   \<and> getRouteSegments ''a.(b'' = Inr [''a'', ''b'']
   \<and> getRouteSegments ''(a[b'' = Inr [''ab'']
   \<and> getRouteSegments ''a.['' = Inr [''a'']"
proof -
  have l1: "getRouteSegments_loop (stripFolderMarker ''a.[b'') (stripFolderMarker ''a.[b'')
              NORMAL [] [] [] = Inr (ESCAPE, ''b'', ''b'', [''a''])" by code_simp
  have l2: "getRouteSegments_loop (stripFolderMarker ''a.(b'') (stripFolderMarker ''a.(b'')
              NORMAL [] [] [] = Inr (OPTIONAL, ''b'', ''b'', [''a''])" by code_simp
  have l3: "getRouteSegments_loop (stripFolderMarker ''(a[b'') (stripFolderMarker ''(a[b'')
              NORMAL [] [] [] = Inr (OPTIONAL_ESCAPE, ''ab'', ''ab'', [])" by code_simp
  have l4: "getRouteSegments_loop (stripFolderMarker ''a.['') (stripFolderMarker ''a.['')
              NORMAL [] [] [] = Inr (ESCAPE, [], [], [''a''])" by code_simp
  show ?thesis
    using end_of_input_flush [OF l1] end_of_input_flush [OF l2] end_of_input_flush [OF l3]
      end_of_input_flush [OF l4]
    by simp
qed

text \<open>
  C8. In the route map that \<open>getRouteMap\<close> returns, the \<open>parentId\<close> of every route is the id
  of the route registered under the longest proper prefix of its name, the prefixes being
  taken at \<open>/\<close> boundaries and tried longest first, and it is \<open>undefined\<close> if none of them is
  registered; the routes at the top of the manifest are exactly the routes whose \<open>parentId\<close>
  is \<open>undefined\<close>, in the order of the map. In particular, with \<open>a\<close>, \<open>a/b\<close> and \<open>a/b/c\<close>
  registered, the parent of \<open>a/b/c/d\<close> is the route named \<open>a/b/c\<close>.
\<close>

theorem parent_resolution:
  assumes "getRouteMap_from files = Inr routeMap"
  shows "(\<exists>collected nameMap.
            getRouteMap_loop files [] Map.empty = Inr (collected, nameMap)
            \<and> (\<forall>n r0. nameMap n = Some r0 \<longrightarrow> ri_name r0 = n \<and> ri_id r0 \<in> fst ` set routeMap)
            \<and> (\<forall>(k, r) \<in> set routeMap.
                  ri_name r = join (ri_segments r) ''/'' \<and> ri_name r \<in> dom nameMap
                  \<and> ri_parentId r = spec_parentId nameMap (ri_segments r)))
    \<and> (flatRoutesUniversal depth routeMap prefix = Some (Inr forest) \<longrightarrow>
          map nodeSig forest
          = map (routeSig prefix) (filter (\<lambda>r. ri_parentId r = None) (map snd routeMap)))
    \<and> findParentRouteId
         \<lparr>ri_id = ''a.b.c.d'', ri_path = Some ''/a/b/c/d'', ri_file = ''routes/a.b.c.d.tsx'',
          ri_name = ''a/b/c/d'', ri_segments = [''a'', ''b'', ''c'', ''d''], ri_index = False,
          ri_parentId = None\<rparr>
         [''a'' \<mapsto>
            \<lparr>ri_id = ''a'', ri_path = Some ''/a'', ri_file = ''routes/a.tsx'', ri_name = ''a'',
             ri_segments = [''a''], ri_index = False, ri_parentId = None\<rparr>,
          ''a/b'' \<mapsto>
            \<lparr>ri_id = ''a.b'', ri_path = Some ''/a/b'', ri_file = ''routes/a.b.tsx'',
             ri_name = ''a/b'', ri_segments = [''a'', ''b''], ri_index = False,
             ri_parentId = None\<rparr>,
          ''a/b/c'' \<mapsto>
            \<lparr>ri_id = ''a.b.c'', ri_path = Some ''/a/b/c'', ri_file = ''routes/a.b.c.tsx'',
             ri_name = ''a/b/c'', ri_segments = [''a'', ''b'', ''c''], ri_index = False,
             ri_parentId = None\<rparr>]
       = Some ''a.b.c''"
proof (intro conjI impI)
  from assms obtain collected nameMap where
      loop: "getRouteMap_loop files [] Map.empty = Inr (collected, nameMap)"
      and rm: "routeMap = map (\<lambda>(k, routeInfo).
                  (k, routeInfo\<lparr>ri_parentId := findParentRouteId routeInfo nameMap\<rparr>)) collected"
    by (auto simp: getRouteMap_from_def split: sum.splits)
  have ok: "collectedOK collected nameMap"
    by (rule getRouteMap_loop_collectedOK [OF loop]) (simp add: collectedOK_def)
  have keys: "fst ` set routeMap = fst ` set collected"
    unfolding rm by force
  have names: "\<forall>n r0. nameMap n = Some r0 \<longrightarrow> ri_name r0 = n \<and> ri_id r0 \<in> fst ` set routeMap"
    using ok unfolding collectedOK_def keys by blast
  have entries: "ri_name r = join (ri_segments r) ''/'' \<and> ri_name r \<in> dom nameMap
                  \<and> ri_parentId r = spec_parentId nameMap (ri_segments r)"
    if "(k, r) \<in> set routeMap" for k r
  proof -
    from that obtain r0 where r0: "(k, r0) \<in> set collected"
        "r = r0\<lparr>ri_parentId := findParentRouteId r0 nameMap\<rparr>"
      unfolding rm by auto
    from ok r0(1) have c: "getRouteSegments (ri_id r0) = Inr (ri_segments r0)"
        "ri_name r0 = join (ri_segments r0) ''/''" "ri_name r0 \<in> dom nameMap"
      unfolding collectedOK_def by auto
    have "findParentRouteId r0 nameMap = spec_parentId nameMap (ri_segments r0)"
      by (rule findParentRouteId_spec) (rule getRouteSegments_segments [OF c(1)])
    then show ?thesis using c r0(2) by simp
  qed
  show "\<exists>collected nameMap.
            getRouteMap_loop files [] Map.empty = Inr (collected, nameMap)
            \<and> (\<forall>n r0. nameMap n = Some r0 \<longrightarrow> ri_name r0 = n \<and> ri_id r0 \<in> fst ` set routeMap)
            \<and> (\<forall>(k, r) \<in> set routeMap.
                  ri_name r = join (ri_segments r) ''/'' \<and> ri_name r \<in> dom nameMap
                  \<and> ri_parentId r = spec_parentId nameMap (ri_segments r))"
    using loop names entries by blast
next
  assume "flatRoutesUniversal depth routeMap prefix = Some (Inr forest)"
  then show "map nodeSig forest
          = map (routeSig prefix) (filter (\<lambda>r. ri_parentId r = None) (map snd routeMap))"
    by (rule flatRoutesUniversal_top)
qed code_simp

theorem parent_resolution_witness:
  "getRouteMap_from [(''routes/a.tsx'', ''a''), (''routes/a.b.tsx'', ''a.b''),
                     (''routes/a.b.c.tsx'', ''a.b.c''), (''routes/a.b.c.d.tsx'', ''a.b.c.d''),
                     (''routes/x.y.tsx'', ''x.y'')]
   = Inr [(''a'',
       \<lparr>ri_id = ''a'', ri_path = Some ''/a'', ri_file = ''routes/a.tsx'',
        ri_name = ''a'', ri_segments = [''a''], ri_index = False,
        ri_parentId = None\<rparr>),
      (''a.b'',
       \<lparr>ri_id = ''a.b'', ri_path = Some ''/a/b'', ri_file = ''routes/a.b.tsx'',
        ri_name = ''a/b'', ri_segments = [''a'', ''b''], ri_index = False,
        ri_parentId = Some ''a''\<rparr>),
      (''a.b.c'',
       \<lparr>ri_id = ''a.b.c'', ri_path = Some ''/a/b/c'', ri_file = ''routes/a.b.c.tsx'',
        ri_name = ''a/b/c'', ri_segments = [''a'', ''b'', ''c''], ri_index = False,
        ri_parentId = Some ''a.b''\<rparr>),
      (''a.b.c.d'',
       \<lparr>ri_id = ''a.b.c.d'', ri_path = Some ''/a/b/c/d'', ri_file = ''routes/a.b.c.d.tsx'',
        ri_name = ''a/b/c/d'', ri_segments = [''a'', ''b'', ''c'', ''d''], ri_index = False,
        ri_parentId = Some ''a.b.c''\<rparr>),
      (''x.y'',
       \<lparr>ri_id = ''x.y'', ri_path = Some ''/x/y'', ri_file = ''routes/x.y.tsx'',
        ri_name = ''x/y'', ri_segments = [''x'', ''y''], ri_index = False,
        ri_parentId = None\<rparr>)]
   \<and> flatRoutesUniversal 5
     [(''a'',
       \<lparr>ri_id = ''a'', ri_path = Some ''/a'', ri_file = ''routes/a.tsx'',
        ri_name = ''a'', ri_segments = [''a''], ri_index = False,
        ri_parentId = None\<rparr>),
      (''a.b'',
       \<lparr>ri_id = ''a.b'', ri_path = Some ''/a/b'', ri_file = ''routes/a.b.tsx'',
        ri_name = ''a/b'', ri_segments = [''a'', ''b''], ri_index = False,
        ri_parentId = Some ''a''\<rparr>),
      (''a.b.c'',
       \<lparr>ri_id = ''a.b.c'', ri_path = Some ''/a/b/c'', ri_file = ''routes/a.b.c.tsx'',
        ri_name = ''a/b/c'', ri_segments = [''a'', ''b'', ''c''], ri_index = False,
        ri_parentId = Some ''a.b''\<rparr>),
      (''a.b.c.d'',
       \<lparr>ri_id = ''a.b.c.d'', ri_path = Some ''/a/b/c/d'', ri_file = ''routes/a.b.c.d.tsx'',
        ri_name = ''a/b/c/d'', ri_segments = [''a'', ''b'', ''c'', ''d''], ri_index = False,
        ri_parentId = Some ''a.b.c''\<rparr>),
      (''x.y'',
       \<lparr>ri_id = ''x.y'', ri_path = Some ''/x/y'', ri_file = ''routes/x.y.tsx'',
        ri_name = ''x/y'', ri_segments = [''x'', ''y''], ri_index = False,
        ri_parentId = None\<rparr>)]
     ''routes''
   = Some (Inr [RouteNode ''a'' ''routes/a.tsx'' ''routes/a'' False
                  [RouteNode ''b'' ''routes/a.b.tsx'' ''routes/a.b'' False
                     [RouteNode ''c'' ''routes/a.b.c.tsx'' ''routes/a.b.c'' False
                        [RouteNode ''d'' ''routes/a.b.c.d.tsx'' ''routes/a.b.c.d'' False []]]],
                RouteNode ''x/y'' ''routes/x.y.tsx'' ''routes/x.y'' False []])"
proof -
  let ?files = "[(''routes/a.tsx'', ''a''), (''routes/a.b.tsx'', ''a.b''),
                 (''routes/a.b.c.tsx'', ''a.b.c''), (''routes/a.b.c.d.tsx'', ''a.b.c.d''),
                 (''routes/x.y.tsx'', ''x.y'')]"
  let ?rm = "[(''a'',
       \<lparr>ri_id = ''a'', ri_path = Some ''/a'', ri_file = ''routes/a.tsx'',
        ri_name = ''a'', ri_segments = [''a''], ri_index = False,
        ri_parentId = None\<rparr>),
      (''a.b'',
       \<lparr>ri_id = ''a.b'', ri_path = Some ''/a/b'', ri_file = ''routes/a.b.tsx'',
        ri_name = ''a/b'', ri_segments = [''a'', ''b''], ri_index = False,
        ri_parentId = Some ''a''\<rparr>),
      (''a.b.c'',
       \<lparr>ri_id = ''a.b.c'', ri_path = Some ''/a/b/c'', ri_file = ''routes/a.b.c.tsx'',
        ri_name = ''a/b/c'', ri_segments = [''a'', ''b'', ''c''], ri_index = False,
        ri_parentId = Some ''a.b''\<rparr>),
      (''a.b.c.d'',
       \<lparr>ri_id = ''a.b.c.d'', ri_path = Some ''/a/b/c/d'', ri_file = ''routes/a.b.c.d.tsx'',
        ri_name = ''a/b/c/d'', ri_segments = [''a'', ''b'', ''c'', ''d''], ri_index = False,
        ri_parentId = Some ''a.b.c''\<rparr>),
      (''x.y'',
       \<lparr>ri_id = ''x.y'', ri_path = Some ''/x/y'', ri_file = ''routes/x.y.tsx'',
        ri_name = ''x/y'', ri_segments = [''x'', ''y''], ri_index = False,
        ri_parentId = None\<rparr>)]"
  have build: "getRouteMap_from ?files = Inr ?rm" by code_simp
  have run: "flatRoutesUniversal 5 ?rm ''routes''
   = Some (Inr [RouteNode ''a'' ''routes/a.tsx'' ''routes/a'' False
                  [RouteNode ''b'' ''routes/a.b.tsx'' ''routes/a.b'' False
                     [RouteNode ''c'' ''routes/a.b.c.tsx'' ''routes/a.b.c'' False
                        [RouteNode ''d'' ''routes/a.b.c.d.tsx'' ''routes/a.b.c.d'' False []]]],
                RouteNode ''x/y'' ''routes/x.y.tsx'' ''routes/x.y'' False []])"
    by code_simp
  have "\<exists>collected nameMap. getRouteMap_loop ?files [] Map.empty = Inr (collected, nameMap)"
    using parent_resolution [OF build] by blast
  then show ?thesis using build run by simp
qed

text \<open>
  C10. In every manifest that \<open>flatRoutesUniversal\<close> returns, an emitted index route has no
  route nested under it; the emitted routes are, one for one and in order, the routes that
  the traversal reaches, and (ids being unique, as the keys of a \<open>Map\<close> are) a route whose
  \<open>parentId\<close> is the id of an index route is not among them. With unique ids the traversal
  returns within a depth of one more than the number of routes.
\<close>

theorem no_route_under_index:
  assumes "flatRoutesUniversal depth routeMap prefix = Some (Inr forest)"
  shows "(\<forall>n \<in> set (emitted forest). n_index n \<longrightarrow> n_children n = [])
    \<and> (\<exists>vs. reached depth routeMap None = Some vs
          \<and> map nodeSig (emitted forest) = map (routeSig prefix) vs
          \<and> (distinct (map (ri_id \<circ> snd) routeMap) \<longrightarrow>
               (\<forall>(k, r) \<in> set routeMap. \<forall>(k', q) \<in> set routeMap.
                  ri_index q \<and> ri_parentId r = Some (ri_id q) \<longrightarrow> r \<notin> set vs)))
    \<and> (distinct (map (ri_id \<circ> snd) routeMap) \<longrightarrow>
         flatRoutesUniversal (Suc (length routeMap)) routeMap prefix \<noteq> None)"
proof -
  obtain u' where run:
      "defineNestedRoutes depth routeMap prefix None Map.empty = Some (Inr (forest, u'))"
    using assms by (auto simp: flatRoutesUniversal_def split: option.splits sum.splits)
  from defineNestedRoutes_success_reached [OF run]
  obtain vs where reach: "reached depth routeMap None = Some vs" by auto
  from defineNestedRoutes_refines [OF reach, of prefix Map.empty] run
  have sig: "map nodeSig (emitted forest) = map (routeSig prefix) vs"
    and leaf: "\<forall>n \<in> set (emitted forest). n_index n \<longrightarrow> n_children n = []"
    by (auto simp: refines_def split: sum.splits)
  have omitted: "\<forall>(k, r) \<in> set routeMap. \<forall>(k', q) \<in> set routeMap.
                  ri_index q \<and> ri_parentId r = Some (ri_id q) \<longrightarrow> r \<notin> set vs"
    if d: "distinct (map (ri_id \<circ> snd) routeMap)"
  proof -
    have "r \<notin> set vs"
      if "q \<in> set (map snd routeMap)" "ri_index q" "ri_parentId r = Some (ri_id q)" for r q
      by (rule under_index_not_reached [OF d reach that])
    then show ?thesis by fastforce
  qed
  have returns: "flatRoutesUniversal (Suc (length routeMap)) routeMap prefix \<noteq> None"
    if "distinct (map (ri_id \<circ> snd) routeMap)"
    by (rule flatRoutesUniversal_returns [OF that])
  show ?thesis using leaf reach sig omitted returns by blast
qed

theorem no_route_under_index_witness:
  "flatRoutesUniversal 2
     [(''a._index'',
       \<lparr>ri_id = ''a._index'', ri_path = Some ''/a'', ri_file = ''routes/a._index.tsx'',
        ri_name = ''a/_index'', ri_segments = [''a'', ''_index''], ri_index = True,
        ri_parentId = None\<rparr>),
      (''a._index.b'',
       \<lparr>ri_id = ''a._index.b'', ri_path = Some ''/a/b'', ri_file = ''routes/a._index.b.tsx'',
        ri_name = ''a/_index/b'', ri_segments = [''a'', ''_index'', ''b''], ri_index = False,
        ri_parentId = Some ''a._index''\<rparr>)]
     ''routes''
   = Some (Inr [RouteNode ''a'' ''routes/a._index.tsx'' ''routes/a._index'' True []])
   \<and> reached 2
     [(''a._index'',
       \<lparr>ri_id = ''a._index'', ri_path = Some ''/a'', ri_file = ''routes/a._index.tsx'',
        ri_name = ''a/_index'', ri_segments = [''a'', ''_index''], ri_index = True,
        ri_parentId = None\<rparr>),
      (''a._index.b'',
       \<lparr>ri_id = ''a._index.b'', ri_path = Some ''/a/b'', ri_file = ''routes/a._index.b.tsx'',
        ri_name = ''a/_index/b'', ri_segments = [''a'', ''_index'', ''b''], ri_index = False,
        ri_parentId = Some ''a._index''\<rparr>)]
     None
   = Some [\<lparr>ri_id = ''a._index'', ri_path = Some ''/a'', ri_file = ''routes/a._index.tsx'',
        ri_name = ''a/_index'', ri_segments = [''a'', ''_index''], ri_index = True,
        ri_parentId = None\<rparr>]"
proof -
  let ?rm = "[(''a._index'',
       \<lparr>ri_id = ''a._index'', ri_path = Some ''/a'', ri_file = ''routes/a._index.tsx'',
        ri_name = ''a/_index'', ri_segments = [''a'', ''_index''], ri_index = True,
        ri_parentId = None\<rparr>),
      (''a._index.b'',
       \<lparr>ri_id = ''a._index.b'', ri_path = Some ''/a/b'', ri_file = ''routes/a._index.b.tsx'',
        ri_name = ''a/_index/b'', ri_segments = [''a'', ''_index'', ''b''], ri_index = False,
        ri_parentId = Some ''a._index''\<rparr>)]"
  have run: "flatRoutesUniversal 2 ?rm ''routes''
      = Some (Inr [RouteNode ''a'' ''routes/a._index.tsx'' ''routes/a._index'' True []])"
    by code_simp
  have reach: "reached 2 ?rm None = Some [\<lparr>ri_id = ''a._index'', ri_path = Some ''/a'', ri_file = ''routes/a._index.tsx'',
        ri_name = ''a/_index'', ri_segments = [''a'', ''_index''], ri_index = True,
        ri_parentId = None\<rparr>]"
    by code_simp
  have "\<exists>vs. reached 2 ?rm None = Some vs"
    using no_route_under_index [OF run] by blast
  then show ?thesis using run reach by simp
qed

text \<open>
  C1 (the code departs from it). The route files \<open>routes/a._index.tsx\<close> and
  \<open>routes/a._index.b.tsx\<close> give an index route \<open>a._index\<close> and a route \<open>a._index.b\<close> whose
  parent it is. \<open>flatRoutesUniversal\<close> throws nothing: it returns a manifest with the index
  route alone. No route map at all makes it throw the error for child routes of an index
  route, since \<open>invalidChildRoutes\<close> is always empty.
\<close>

theorem index_route_with_child_accepted:
  "getRouteMap_from [(''routes/a._index.tsx'', ''a._index''),
                     (''routes/a._index.b.tsx'', ''a._index.b'')]
   = Inr [(''a._index'',
           \<lparr>ri_id = ''a._index'', ri_path = Some ''/a'', ri_file = ''routes/a._index.tsx'',
            ri_name = ''a/_index'', ri_segments = [''a'', ''_index''], ri_index = True,
            ri_parentId = None\<rparr>),
          (''a._index.b'',
           \<lparr>ri_id = ''a._index.b'', ri_path = Some ''/a/b'',
            ri_file = ''routes/a._index.b.tsx'', ri_name = ''a/_index/b'',
            ri_segments = [''a'', ''_index'', ''b''], ri_index = False,
            ri_parentId = Some ''a._index''\<rparr>)]
   \<and> flatRoutesUniversal 2
         [(''a._index'',
           \<lparr>ri_id = ''a._index'', ri_path = Some ''/a'', ri_file = ''routes/a._index.tsx'',
            ri_name = ''a/_index'', ri_segments = [''a'', ''_index''], ri_index = True,
            ri_parentId = None\<rparr>),
          (''a._index.b'',
           \<lparr>ri_id = ''a._index.b'', ri_path = Some ''/a/b'',
            ri_file = ''routes/a._index.b.tsx'', ri_name = ''a/_index/b'',
            ri_segments = [''a'', ''_index'', ''b''], ri_index = False,
            ri_parentId = Some ''a._index''\<rparr>)]
         ''routes''
       = Some (Inr [RouteNode ''a'' ''routes/a._index.tsx'' ''routes/a._index'' True []])
   \<and> flatRoutesUniversal depth routeMap prefix \<noteq> Some (Inl (InvalidIndexChild i))"
proof (intro conjI)
  show "flatRoutesUniversal depth routeMap prefix \<noteq> Some (Inl (InvalidIndexChild i))"
    using defineNestedRoutes_no_index_error [of depth routeMap prefix None Map.empty i]
    by (auto simp: flatRoutesUniversal_def split: option.splits sum.splits)
qed code_simp+

text \<open>
  C2 (as amended). The conflict check keys a route by its path (the empty string when the
  path is absent) followed by \<open>?index\<close> for an index route, and skips the empty key. Take
  the routes in the order in which the traversal reaches them, ids being unique and the
  routes with a non-empty key having a non-empty id. If two different ones among them have
  the same non-empty key, assembly fails with the conflict error, which carries the path and
  the id of a reached route and the id of a different route reached before it that has the
  same non-empty key. Otherwise assembly returns a manifest with one emitted route per
  reached route. A route with no path that is not an index route has the empty key and is
  never checked, and two routes with the same path but different index flags have different
  keys. The traversal returns within a depth of one more than the number of routes.
\<close>

theorem route_conflict_detection:
  assumes d: "distinct (map (ri_id \<circ> snd) routeMap)"
    and ids: "idsForKeys (map snd routeMap)"
    and reach: "reached depth routeMap None = Some vs"
  shows "set vs \<subseteq> snd ` set routeMap \<and> distinct vs
    \<and> ((\<exists>r \<in> set vs. \<exists>r' \<in> set vs.
            r \<noteq> r' \<and> uniqueRouteId r = uniqueRouteId r' \<and> uniqueRouteId r \<noteq> []) \<longrightarrow>
         (\<exists>pre r post r'. vs = pre @ r # post \<and> r' \<in> set pre \<and> r \<noteq> r'
            \<and> uniqueRouteId r = uniqueRouteId r' \<and> uniqueRouteId r \<noteq> []
            \<and> flatRoutesUniversal depth routeMap prefix
                = Some (Inl (RouteConflict (ri_path r) (ri_id r) (ri_id r')))))
    \<and> (\<not> (\<exists>r \<in> set vs. \<exists>r' \<in> set vs.
            r \<noteq> r' \<and> uniqueRouteId r = uniqueRouteId r' \<and> uniqueRouteId r \<noteq> []) \<longrightarrow>
         (\<exists>forest. flatRoutesUniversal depth routeMap prefix = Some (Inr forest)
            \<and> map nodeSig (emitted forest) = map (routeSig prefix) vs))
    \<and> (ri_path r0 = None \<and> \<not> ri_index r0 \<longrightarrow>
         uniqueRouteId r0 = [] \<and> registerUnique u r0 = Inr u)
    \<and> (ri_path r0 = ri_path r1 \<and> ri_index r0 \<noteq> ri_index r1 \<longrightarrow>
         uniqueRouteId r0 \<noteq> uniqueRouteId r1)
    \<and> reached (Suc (length routeMap)) routeMap None \<noteq> None"
proof -
  let ?run = "defineNestedRoutes depth routeMap prefix None Map.empty"
  let ?conflict = "\<exists>r \<in> set vs. \<exists>r' \<in> set vs.
            r \<noteq> r' \<and> uniqueRouteId r = uniqueRouteId r' \<and> uniqueRouteId r \<noteq> []"
  have sub: "set vs \<subseteq> snd ` set routeMap"
    using reached_parent [OF reach] by auto
  have dvs: "distinct vs"
    by (rule reached_distinct [OF unique_ids [OF d] _ _ reach, of "[]"]) simp_all
  have ref: "refines prefix Map.empty vs ?run"
    by (rule defineNestedRoutes_refines [OF reach])
  have idvs: "\<forall>r \<in> set ([] @ vs). uniqueRouteId r \<noteq> [] \<longrightarrow> ri_id r \<noteq> []"
    using ids sub unfolding idsForKeys_def by auto
  have rep: "represents Map.empty []" by (simp add: represents_def)
  note out = registerAll_outcome [OF rep _ idvs, simplified keysOf_simps, simplified]
  have iff: "distinct (keysOf vs) \<longleftrightarrow> \<not> ?conflict"
    unfolding keysOf_distinct_iff [OF dvs] by blast
  have fails: "\<exists>pre r post r'. vs = pre @ r # post \<and> r' \<in> set pre \<and> r \<noteq> r'
            \<and> uniqueRouteId r = uniqueRouteId r' \<and> uniqueRouteId r \<noteq> []
            \<and> flatRoutesUniversal depth routeMap prefix
                = Some (Inl (RouteConflict (ri_path r) (ri_id r) (ri_id r')))"
    if ?conflict
  proof -
    from that iff have "\<not> distinct (keysOf vs)" by simp
    with out obtain pre r post r' where x: "vs = pre @ r # post" "r' \<in> set pre"
        "uniqueRouteId r = uniqueRouteId r'" "uniqueRouteId r \<noteq> []"
        "registerAll Map.empty vs = Inl (RouteConflict (ri_path r) (ri_id r) (ri_id r'))"
      by blast
    from ref x(5) have "?run = Some (Inl (RouteConflict (ri_path r) (ri_id r) (ri_id r')))"
      by (simp add: refines_def)
    then have "flatRoutesUniversal depth routeMap prefix
                = Some (Inl (RouteConflict (ri_path r) (ri_id r) (ri_id r')))"
      by (simp add: flatRoutesUniversal_def)
    moreover have "r \<noteq> r'" using dvs x(1,2) by auto
    ultimately show ?thesis using x(1-4) by blast
  qed
  have succeeds: "\<exists>forest. flatRoutesUniversal depth routeMap prefix = Some (Inr forest)
            \<and> map nodeSig (emitted forest) = map (routeSig prefix) vs"
    if "\<not> ?conflict"
  proof -
    from that iff have "distinct (keysOf vs)" by simp
    with out obtain u' where "registerAll Map.empty vs = Inr u'" by blast
    with ref obtain forest where "?run = Some (Inr (forest, u'))"
        "map nodeSig (emitted forest) = map (routeSig prefix) vs"
      by (auto simp: refines_def)
    then show ?thesis by (simp add: flatRoutesUniversal_def)
  qed
  have pathless: "uniqueRouteId r0 = [] \<and> registerUnique u r0 = Inr u"
    if "ri_path r0 = None \<and> \<not> ri_index r0"
    using that by (simp add: registerUnique_def uniqueRouteId_def)
  have flags: "uniqueRouteId r0 \<noteq> uniqueRouteId r1"
    if "ri_path r0 = ri_path r1 \<and> ri_index r0 \<noteq> ri_index r1"
    using that by (auto simp: uniqueRouteId_def)
  show ?thesis
    using sub dvs fails succeeds pathless flags reached_returns [OF d] by blast
qed

theorem route_conflict_detection_witness:
  "flatRoutesUniversal 3
     [(''users'',
       \<lparr>ri_id = ''users'', ri_path = Some ''/users'', ri_file = ''routes/users.tsx'',
        ri_name = ''users'', ri_segments = [''users''], ri_index = False,
        ri_parentId = None\<rparr>),
      (''users/route'',
       \<lparr>ri_id = ''users/route'', ri_path = Some ''/users'', ri_file = ''routes/users/route.tsx'',
        ri_name = ''users'', ri_segments = [''users''], ri_index = False,
        ri_parentId = None\<rparr>)]
     ''routes''
   = Some (Inl (RouteConflict (Some ''/users'') ''users/route'' ''users''))
   \<and> flatRoutesUniversal 3
     [(''users'',
       \<lparr>ri_id = ''users'', ri_path = Some ''/users'', ri_file = ''routes/users.tsx'',
        ri_name = ''users'', ri_segments = [''users''], ri_index = False,
        ri_parentId = None\<rparr>),
      (''users._index'',
       \<lparr>ri_id = ''users._index'', ri_path = Some ''/users'', ri_file = ''routes/users._index.tsx'',
        ri_name = ''users/_index'', ri_segments = [''users'', ''_index''], ri_index = True,
        ri_parentId = Some ''users''\<rparr>)]
     ''routes''
   = Some (Inr [RouteNode ''users'' ''routes/users.tsx'' ''routes/users'' False
                  [RouteNode [] ''routes/users._index.tsx'' ''routes/users._index'' True []]])"
proof -
  let ?conf = "[(''users'',
       \<lparr>ri_id = ''users'', ri_path = Some ''/users'', ri_file = ''routes/users.tsx'',
        ri_name = ''users'', ri_segments = [''users''], ri_index = False,
        ri_parentId = None\<rparr>),
      (''users/route'',
       \<lparr>ri_id = ''users/route'', ri_path = Some ''/users'', ri_file = ''routes/users/route.tsx'',
        ri_name = ''users'', ri_segments = [''users''], ri_index = False,
        ri_parentId = None\<rparr>)]"
  let ?ok = "[(''users'',
       \<lparr>ri_id = ''users'', ri_path = Some ''/users'', ri_file = ''routes/users.tsx'',
        ri_name = ''users'', ri_segments = [''users''], ri_index = False,
        ri_parentId = None\<rparr>),
      (''users._index'',
       \<lparr>ri_id = ''users._index'', ri_path = Some ''/users'', ri_file = ''routes/users._index.tsx'',
        ri_name = ''users/_index'', ri_segments = [''users'', ''_index''], ri_index = True,
        ri_parentId = Some ''users''\<rparr>)]"
  have d1: "distinct (map (ri_id \<circ> snd) ?conf)" by simp
  have i1: "idsForKeys (map snd ?conf)" by (simp add: idsForKeys_def)
  have v1: "reached 3 ?conf None = Some (map snd ?conf)" by code_simp
  have d2: "distinct (map (ri_id \<circ> snd) ?ok)" by simp
  have i2: "idsForKeys (map snd ?ok)" by (simp add: idsForKeys_def)
  have v2: "reached 3 ?ok None = Some (map snd ?ok)" by code_simp
  have r1: "flatRoutesUniversal 3 ?conf ''routes''
            = Some (Inl (RouteConflict (Some ''/users'') ''users/route'' ''users''))"
    by code_simp
  have r2: "flatRoutesUniversal 3 ?ok ''routes''
            = Some (Inr [RouteNode ''users'' ''routes/users.tsx'' ''routes/users'' False
                  [RouteNode [] ''routes/users._index.tsx'' ''routes/users._index'' True []]])"
    by code_simp
  have "distinct (map snd ?conf)"
    using route_conflict_detection [OF d1 i1 v1] by blast
  moreover have "distinct (map snd ?ok)"
    using route_conflict_detection [OF d2 i2 v2] by blast
  ultimately show ?thesis using r1 r2 by simp
qed

text \<open>
  C2 as stated fails: the pathless layout routes of \<open>routes/_a.tsx\<close> and \<open>routes/_b.tsx\<close>
  both have an absent path and are not index routes, and assembly returns a manifest with
  both.
\<close>

theorem pathless_routes_counterexample:
  "getRouteMap_from [(''routes/_a.tsx'', ''_a''), (''routes/_b.tsx'', ''_b'')]
   = Inr [(''_a'',
       \<lparr>ri_id = ''_a'', ri_path = None, ri_file = ''routes/_a.tsx'', ri_name = ''_a'',
        ri_segments = [''_a''], ri_index = False, ri_parentId = None\<rparr>),
      (''_b'',
       \<lparr>ri_id = ''_b'', ri_path = None, ri_file = ''routes/_b.tsx'', ri_name = ''_b'',
        ri_segments = [''_b''], ri_index = False, ri_parentId = None\<rparr>)]
   \<and> flatRoutesUniversal 2
     [(''_a'',
       \<lparr>ri_id = ''_a'', ri_path = None, ri_file = ''routes/_a.tsx'', ri_name = ''_a'',
        ri_segments = [''_a''], ri_index = False, ri_parentId = None\<rparr>),
      (''_b'',
       \<lparr>ri_id = ''_b'', ri_path = None, ri_file = ''routes/_b.tsx'', ri_name = ''_b'',
        ri_segments = [''_b''], ri_index = False, ri_parentId = None\<rparr>)]
     ''routes''
   = Some (Inr [RouteNode [] ''routes/_a.tsx'' ''routes/_a'' False [],
                RouteNode [] ''routes/_b.tsx'' ''routes/_b'' False []])"
  by code_simp

end
